theory Spec2Isabelle
  imports Complex_Main "HOL-Library.Multiset"
begin

section \<open>The host environment\<close>

text \<open>
  The generator of \<^verbatim>\<open>src/short-uid.ts\<close> touches four things outside its own instance:
  the store holding the arrays (the static dictionary and every copy handed to a caller),
  the ambient \<^verbatim>\<open>console\<close>, the text that has been logged, and the source behind
  \<^verbatim>\<open>Math.random()\<close>. They are the fields of one record that every operation takes and
  returns. The counter is a whole number held in a double: it is a natural number here,
  and the two operations the source applies to it, \<^verbatim>\<open>++\<close> and \<^verbatim>\<open>Math.floor(v / d)\<close>, round as
  doubles do. Strings are unbounded.
\<close>

type_synonym ref = nat

text \<open>
  What \<^verbatim>\<open>console?.log?.(...)\<close> can find. The optional chain skips the call only for a value
  that is undefined or null:
  \<^item> no binding named \<^verbatim>\<open>console\<close> at all: reading the identifier throws a ReferenceError;
  \<^item> \<^verbatim>\<open>console\<close> is undefined or null: the call is skipped;
  \<^item> \<^verbatim>\<open>console.log\<close> is undefined or null: the call is skipped;
  \<^item> \<^verbatim>\<open>console.log\<close> is some other value that is not a function: the call throws a TypeError;
  \<^item> \<^verbatim>\<open>console.log\<close> is a function that throws: its exception reaches the caller;
  \<^item> \<^verbatim>\<open>console.log\<close> is a function that records the message and returns.
\<close>

datatype console_cap =
  ConsoleUnbound | ConsoleNullish | ConsoleWithoutLog | ConsoleLogNotCallable
  | ConsoleLogThrows | ConsoleWithLog

text \<open>
  What can be thrown: the error of \<^verbatim>\<open>randomUUID\<close>, the two errors of the language above, and
  whatever a throwing \<^verbatim>\<open>log\<close> throws.
\<close>

datatype error = InvalidLength | ReferenceError | TypeError | HostError

record world =
  arrays :: "ref \<Rightarrow> string list"
  next_ref :: ref
  console :: console_cap
  printed :: "string list"
  random_src :: "nat \<Rightarrow> real"
  random_pos :: nat

text \<open>\<^verbatim>\<open>Math.random()\<close>: the next draw of the source. The host promises a draw in \<open>[0, 1)\<close>.\<close>

definition Math_random :: "world \<Rightarrow> real \<times> world" where
  "Math_random w = (random_src w (random_pos w), w\<lparr>random_pos := random_pos w + 1\<rparr>)"

definition random_ok :: "world \<Rightarrow> bool" where
  "random_ok w \<longleftrightarrow> (\<forall>i. 0 \<le> random_src w i \<and> random_src w i < 1)"

text \<open>
  Reading \<^verbatim>\<open>xs[i]\<close> and appending it to a string: out of range the read is
  \<^verbatim>\<open>undefined\<close>, and appending \<^verbatim>\<open>undefined\<close> to a string appends the text "undefined".
\<close>

definition js_elem :: "string list \<Rightarrow> nat \<Rightarrow> string" where
  "js_elem xs i = (if i < length xs then xs ! i else ''undefined'')"

text \<open>
  \<^verbatim>\<open>a % b\<close> on whole numbers: the remainder has the sign of the dividend, and it is NaN
  (here \<open>None\<close>) when the divisor is 0. Reading an array at a negative index or at NaN is
  \<^verbatim>\<open>undefined\<close> again.
\<close>

definition js_rem :: "int \<Rightarrow> int \<Rightarrow> int option" where
  "js_rem a b = (if b = 0 then None else Some (sgn a * (\<bar>a\<bar> mod \<bar>b\<bar>)))"

definition js_elem_at :: "string list \<Rightarrow> int option \<Rightarrow> string" where
  "js_elem_at xs i =
     (case i of
        None \<Rightarrow> ''undefined''
      | Some k \<Rightarrow> if 0 \<le> k then js_elem xs (nat k) else ''undefined'')"

text \<open>The values a caller can pass for \<^verbatim>\<open>uuidLength\<close>, and a call that omits it.\<close>

datatype js_number = Finite real | NaN | PosInfinity | NegInfinity

datatype js_value = Undefined | Null | Number js_number

datatype call_arg = Omitted | Passed js_value

text \<open>\<^verbatim>\<open>ToNumber\<close> and the relational \<^verbatim>\<open><\<close> on numbers (false whenever a side is NaN).\<close>

fun to_number :: "js_value \<Rightarrow> js_number" where
  "to_number Undefined = NaN"
| "to_number Null = Finite 0"
| "to_number (Number n) = n"

fun num_less :: "js_number \<Rightarrow> js_number \<Rightarrow> bool" where
  "num_less NaN _ = False"
| "num_less _ NaN = False"
| "num_less (Finite x) (Finite y) = (x < y)"
| "num_less (Finite _) PosInfinity = True"
| "num_less (Finite _) NegInfinity = False"
| "num_less PosInfinity _ = False"
| "num_less NegInfinity NegInfinity = False"
| "num_less NegInfinity _ = True"

definition js_less :: "js_value \<Rightarrow> js_value \<Rightarrow> bool" where
  "js_less a b = num_less (to_number a) (to_number b)"

text \<open>\<^verbatim>\<open>v == null\<close>: true of null and of undefined only.\<close>

fun loose_eq_null :: "js_value \<Rightarrow> bool" where
  "loose_eq_null Undefined = True"
| "loose_eq_null Null = True"
| "loose_eq_null (Number _) = False"

definition js_of_nat :: "nat \<Rightarrow> js_value" where
  "js_of_nat n = Number (Finite (real n))"

text \<open>A number in a template string: decimal digits.\<close>

function string_of_nat :: "nat \<Rightarrow> string" where
  "string_of_nat n =
     (if n < 10 then [char_of (48 + n)]
      else string_of_nat (n div 10) @ [char_of (48 + n mod 10)])"
  by pat_completeness auto
termination
  by (relation "measure (\<lambda>n. n)") auto

subsection \<open>Whole numbers in doubles\<close>

text \<open>
  A double has 53 significant bits. Every whole number up to \<open>2 ^ 53\<close> is a double; a
  result that needs more bits is rounded to the nearest double, and to the one with an even
  last bit when two are equally near. (Doubles end near \<open>2 ^ 1024\<close>; nothing here gets
  there.)
\<close>

definition exact_limit :: nat where
  "exact_limit = 2 ^ 53"

function bit_length :: "nat \<Rightarrow> nat" where
  "bit_length n = (if n = 0 then 0 else Suc (bit_length (n div 2)))"
  by pat_completeness auto
termination
  by (relation "measure (\<lambda>n. n)") auto

declare bit_length.simps [simp del]

text \<open>The whole number nearest to \<open>a / b\<close>, an even one at a tie.\<close>

definition round_half_even :: "nat \<Rightarrow> nat \<Rightarrow> nat" where
  "round_half_even a b =
     (let k = a div b; r = a mod b
      in if 2 * r < b then k
         else if b < 2 * r then k + 1
         else if even k then k else k + 1)"

text \<open>The double nearest to a whole number.\<close>

definition double_round :: "nat \<Rightarrow> nat" where
  "double_round n =
     (let l = bit_length n
      in if l \<le> 53 then n
         else round_half_even n (2 ^ (l - 53)) * 2 ^ (l - 53))"

text \<open>\<^verbatim>\<open>v++\<close> on a whole number \<open>v\<close>: the sum \<open>v + 1\<close>, rounded.\<close>

definition js_increment :: "nat \<Rightarrow> nat" where
  "js_increment v = double_round (v + 1)"

text \<open>
  \<^verbatim>\<open>Math.floor(v / d)\<close> for whole numbers \<open>v\<close> and \<open>d > 0\<close>: the quotient is rounded to 53
  significant bits first, which leaves \<open>53 - l\<close> bits after the point when its whole part
  has \<open>l\<close> bits, and then cut to a whole number.
\<close>

definition js_floor_div :: "nat \<Rightarrow> nat \<Rightarrow> nat" where
  "js_floor_div v d =
     (let l = bit_length (v div d)
      in if l \<le> 53 then round_half_even (v * 2 ^ (53 - l)) d div 2 ^ (53 - l)
         else round_half_even v (d * 2 ^ (l - 53)) * 2 ^ (l - 53))"

section \<open>The static members of the class\<close>

definition DEFAULT_RANDOM_ID_LEN :: nat where
  "DEFAULT_RANDOM_ID_LEN = 6"

definition DICT_RANGES :: "(string \<times> nat \<times> nat) list" where
  "DICT_RANGES = [(''digits'', 48, 58), (''lowerCase'', 97, 123), (''upperCase'', 65, 91)]"

definition String_fromCharCode :: "nat \<Rightarrow> string" where
  "String_fromCharCode n = [char_of n]"

text \<open>The inner loop of the dictionary's construction, pushing one character per code.\<close>

function push_range :: "nat \<Rightarrow> nat \<Rightarrow> string list \<Rightarrow> string list" where
  "push_range dictIndex upperBound d =
     (if dictIndex < upperBound
      then push_range (dictIndex + 1) upperBound (d @ [String_fromCharCode dictIndex])
      else d)"
  by pat_completeness auto
termination
  by (relation "measure (\<lambda>(dictIndex, upperBound, d). upperBound - dictIndex)") auto

text \<open>The outer loop over the ranges, in the order the object literal lists them.\<close>

definition unshuffled_dict :: "string list" where
  "unshuffled_dict =
     fold (\<lambda>(rangeType, lowerBound, upperBound) d. push_range lowerBound upperBound d)
       DICT_RANGES []"

text \<open>
  The class holds a reference to its dictionary array and the cached length.
\<close>

record statics =
  dict :: ref
  dictLength :: nat

text \<open>
  The static initialiser. \<^verbatim>\<open>dict.sort(() => Math.random() - 0.5)\<close> reorders the array in
  place; which order comes out is the host's business, so the reordering is the parameter
  \<open>sort_random\<close>, with the number of draws it took from the random source.
\<close>

definition is_reordering :: "(string list \<Rightarrow> string list) \<Rightarrow> bool" where
  "is_reordering sort_random \<longleftrightarrow> (\<forall>xs. mset (sort_random xs) = mset xs)"

definition static_init ::
  "(string list \<Rightarrow> string list) \<Rightarrow> nat \<Rightarrow> world \<Rightarrow> statics \<times> world" where
  "static_init sort_random draws w =
     (let r = next_ref w;
          d = sort_random unshuffled_dict;
          w' = w\<lparr>arrays := (arrays w)(r := d), next_ref := r + 1,
                 random_pos := random_pos w + draws\<rparr>
      in (\<lparr>dict = r, dictLength = length d\<rparr>, w'))"

section \<open>The generator\<close>

record ShortUID =
  counter :: nat
  debug :: bool

text \<open>\<^verbatim>\<open>{ debug?: boolean }\<close>: the field may be missing.\<close>

record ShortUIDOptions =
  debug_option :: "bool option"

text \<open>The private method \<^verbatim>\<open>log\<close>: \<open>Inl\<close> is the exception it lets through.\<close>

definition log_message :: "ShortUID \<Rightarrow> string \<Rightarrow> world \<Rightarrow> error + world" where
  "log_message this message w =
     (let prefixedMessage = ''[frugal-id] '' @ message
      in if debug this
         then (case console w of
                 ConsoleUnbound \<Rightarrow> Inl ReferenceError
               | ConsoleNullish \<Rightarrow> Inr w
               | ConsoleWithoutLog \<Rightarrow> Inr w
               | ConsoleLogNotCallable \<Rightarrow> Inl TypeError
               | ConsoleLogThrows \<Rightarrow> Inl HostError
               | ConsoleWithLog \<Rightarrow> Inr (w\<lparr>printed := printed w @ [prefixedMessage]\<rparr>))
         else Inr w)"

text \<open>
  The constructor; \<open>None\<close> is a call without the argument, which stands for \<^verbatim>\<open>{}\<close>. When
  the call to \<^verbatim>\<open>log\<close> throws, so does the constructor, and there is no instance.
\<close>

definition new_ShortUID ::
  "statics \<Rightarrow> ShortUIDOptions option \<Rightarrow> world \<Rightarrow> error + ShortUID \<times> world" where
  "new_ShortUID cls options w =
     (let opts = (case options of None \<Rightarrow> \<lparr>debug_option = None\<rparr> | Some given \<Rightarrow> given);
          this = \<lparr>counter = 0,
                  debug = (case debug_option opts of None \<Rightarrow> False | Some b \<Rightarrow> b)\<rparr>
      in case log_message this
                (''Generator created with Dictionary Size '' @ string_of_nat (dictLength cls)) w of
           Inl e \<Rightarrow> Inl e
         | Inr w' \<Rightarrow> Inr (this, w'))"

text \<open>\<^verbatim>\<open>[...ShortUID.dict]\<close>: a new array with the same elements.\<close>

definition getDict :: "statics \<Rightarrow> world \<Rightarrow> ref \<times> world" where
  "getDict cls w =
     (let r = next_ref w
      in (r, w\<lparr>arrays := (arrays w)(r := arrays w (dict cls)), next_ref := r + 1\<rparr>))"

text \<open>
  The loop of \<^verbatim>\<open>counterUUID\<close>. The remainder \<^verbatim>\<open>%\<close> of two whole numbers is exact; the quotient
  is rounded. With a dictionary length of 0 the remainder is NaN and the quotient is never
  \<open>0\<close>, so the loop does not end; with length 1 the quotient never shrinks. Not returning
  is \<open>None\<close>.
\<close>

partial_function (option) counterUUID_loop ::
  "statics \<Rightarrow> world \<Rightarrow> nat \<Rightarrow> string \<Rightarrow> string option" where
  "counterUUID_loop cls w counterDiv uid =
     (if dictLength cls = 0 then None
      else
        let counterRem = counterDiv mod dictLength cls;
            counterDiv' = js_floor_div counterDiv (dictLength cls);
            uid' = uid @ js_elem (arrays w (dict cls)) counterRem
        in if counterDiv' = 0 then Some uid' else counterUUID_loop cls w counterDiv' uid')"

declare counterUUID_loop.simps [code]

definition counterUUID :: "statics \<Rightarrow> world \<Rightarrow> ShortUID \<Rightarrow> (string \<times> ShortUID) option" where
  "counterUUID cls w this =
     (case counterUUID_loop cls w (counter this) [] of
        None \<Rightarrow> None
      | Some uid \<Rightarrow> Some (uid, this\<lparr>counter := js_increment (counter this)\<rparr>))"

text \<open>The loop of \<^verbatim>\<open>randomUUID\<close>: one draw and one character per round.\<close>

partial_function (option) randomUUID_loop ::
  "statics \<Rightarrow> js_value \<Rightarrow> nat \<Rightarrow> string \<Rightarrow> world \<Rightarrow> (string \<times> world) option" where
  "randomUUID_loop cls uuidLength idIndex uid w =
     (if js_less (js_of_nat idIndex) uuidLength
      then
        let w' = snd (Math_random w);
            randomPartIdx =
              js_rem \<lfloor>fst (Math_random w) * real (dictLength cls)\<rfloor> (int (dictLength cls))
        in randomUUID_loop cls uuidLength (idIndex + 1)
             (uid @ js_elem_at (arrays w' (dict cls)) randomPartIdx) w'
      else Some (uid, w))"

declare randomUUID_loop.simps [code]

text \<open>
  \<^verbatim>\<open>randomUUID\<close>: the default applies to a missing argument and to \<^verbatim>\<open>undefined\<close>; the
  \<^verbatim>\<open>throw\<close> is the result \<open>Inl InvalidLength\<close>.
\<close>

definition randomUUID ::
  "statics \<Rightarrow> call_arg \<Rightarrow> ShortUID \<Rightarrow> world \<Rightarrow> ((error + string) \<times> ShortUID \<times> world) option" where
  "randomUUID cls arg this w =
     (let uuidLength =
            (case arg of
               Omitted \<Rightarrow> js_of_nat DEFAULT_RANDOM_ID_LEN
             | Passed Undefined \<Rightarrow> js_of_nat DEFAULT_RANDOM_ID_LEN
             | Passed v \<Rightarrow> v)
      in if loose_eq_null uuidLength \<or> js_less uuidLength (js_of_nat 1)
         then Some (Inl InvalidLength, this, w)
         else (case randomUUID_loop cls uuidLength 0 [] w of
                 None \<Rightarrow> None
               | Some (uid, w') \<Rightarrow> Some (Inr uid, this, w')))"

text \<open>
  \<^verbatim>\<open>resetCounter\<close>: the counter is assigned before \<^verbatim>\<open>log\<close> is called, so the instance has
  counter 0 also when the call throws. The result is what the call did (\<open>Inl\<close>: it threw),
  the instance and the host afterwards.
\<close>

definition resetCounter :: "ShortUID \<Rightarrow> world \<Rightarrow> (error + unit) \<times> ShortUID \<times> world" where
  "resetCounter this w =
     (let this' = this\<lparr>counter := 0\<rparr>
      in case log_message this' ''Counter reset to 0'' w of
           Inl e \<Rightarrow> (Inl e, this', w)
         | Inr w' \<Rightarrow> (Inr (), this', w'))"

definition getCounter :: "ShortUID \<Rightarrow> nat" where
  "getCounter this = counter this"

definition getDictLength :: "statics \<Rightarrow> nat" where
  "getDictLength cls = dictLength cls"

section \<open>Callers\<close>

text \<open>
  The class is loaded when its dictionary array is in the store, holds a reordering of the
  characters pushed by the initialiser, and the cached length is that array's length.
\<close>

definition class_ok :: "statics \<Rightarrow> world \<Rightarrow> bool" where
  "class_ok cls w \<longleftrightarrow>
     dict cls < next_ref w \<and>
     mset (arrays w (dict cls)) = mset unshuffled_dict \<and>
     dictLength cls = length (arrays w (dict cls))"

text \<open>
  The hosts on which a call to \<^verbatim>\<open>log\<close> returns: \<^verbatim>\<open>console\<close> is bound, and it is undefined or
  null, or its \<^verbatim>\<open>log\<close> is undefined or null, or its \<^verbatim>\<open>log\<close> is a function that returns.
\<close>

definition log_safe :: "world \<Rightarrow> bool" where
  "log_safe w \<longleftrightarrow>
     console w = ConsoleNullish \<or> console w = ConsoleWithoutLog \<or> console w = ConsoleWithLog"

text \<open>
  A caller holding a reference to an array may change it in any way: assign an element,
  push, pop, sort. \<open>f\<close> is the change.
\<close>

definition client_write :: "ref \<Rightarrow> (string list \<Rightarrow> string list) \<Rightarrow> world \<Rightarrow> world" where
  "client_write r f w = w\<lparr>arrays := (arrays w)(r := f (arrays w r))\<rparr>"

text \<open>A call of a public method, and what the caller sees of it.\<close>

datatype call =
  CounterUUID | RandomUUID call_arg | ResetCounter | GetCounter | GetDict | GetDictLength

datatype outcome =
  ReturnedString string | Thrown error | ReturnedNumber nat | ReturnedVoid
  | ReturnedArray ref "string list"

fun invoke :: "statics \<Rightarrow> call \<Rightarrow> ShortUID \<times> world \<Rightarrow> (outcome \<times> ShortUID \<times> world) option" where
  "invoke cls CounterUUID (this, w) =
     (case counterUUID cls w this of
        None \<Rightarrow> None
      | Some (uid, this') \<Rightarrow> Some (ReturnedString uid, this', w))"
| "invoke cls (RandomUUID arg) (this, w) =
     (case randomUUID cls arg this w of
        None \<Rightarrow> None
      | Some (Inl e, this', w') \<Rightarrow> Some (Thrown e, this', w')
      | Some (Inr uid, this', w') \<Rightarrow> Some (ReturnedString uid, this', w'))"
| "invoke cls ResetCounter (this, w) =
     (case resetCounter this w of
        (Inl e, this', w') \<Rightarrow> Some (Thrown e, this', w')
      | (Inr u, this', w') \<Rightarrow> Some (ReturnedVoid, this', w'))"
| "invoke cls GetCounter (this, w) = Some (ReturnedNumber (getCounter this), this, w)"
| "invoke cls GetDict (this, w) =
     Some (ReturnedArray (fst (getDict cls w)) (arrays (snd (getDict cls w)) (fst (getDict cls w))),
           this, snd (getDict cls w))"
| "invoke cls GetDictLength (this, w) = Some (ReturnedNumber (getDictLength cls), this, w)"

text \<open>A sequence of calls on one instance; a thrown error is caught and the caller goes on.\<close>

fun run ::
  "statics \<Rightarrow> call list \<Rightarrow> ShortUID \<times> world \<Rightarrow> (outcome list \<times> ShortUID \<times> world) option" where
  "run cls [] st = Some ([], st)"
| "run cls (c # cs) st =
     (case invoke cls c st of
        None \<Rightarrow> None
      | Some (out, st') \<Rightarrow>
          (case run cls cs st' of
             None \<Rightarrow> None
           | Some (outs, st'') \<Rightarrow> Some (out # outs, st'')))"


section \<open>Positional notation\<close>

text \<open>
  The number a list of digits denotes in base \<open>b\<close> when the first digit is the least
  significant one, and what it is for a list to be the encoding of \<open>v\<close>: digits below the
  base, the right value, and no zero in the most significant place unless it is the
  only digit.
\<close>

primrec positional_value :: "nat \<Rightarrow> nat list \<Rightarrow> nat" where
  "positional_value b [] = 0"
| "positional_value b (x # xs) = x + b * positional_value b xs"

definition lsd_encoding :: "nat \<Rightarrow> nat \<Rightarrow> nat list \<Rightarrow> bool" where
  "lsd_encoding b v ds \<longleftrightarrow>
     ds \<noteq> [] \<and> list_all (\<lambda>x. x < b) ds \<and> positional_value b ds = v \<and>
     (if length ds = 1 then True else last ds \<noteq> 0)"

text \<open>
  The digits of \<open>v\<close> by repeated division: take the remainder, go on with the quotient,
  stop when the quotient is \<open>0\<close>.
\<close>

function base_digits :: "nat \<Rightarrow> nat \<Rightarrow> nat list" where
  "base_digits b v =
     (if b < 2 \<or> v div b = 0 then [v mod b] else (v mod b) # base_digits b (v div b))"
  by pat_completeness auto
termination
proof (relation "measure (\<lambda>(b, v). v)")
  show "wf (measure (\<lambda>(b, v). v))"
    by simp
next
  fix b v :: nat
  assume "\<not> (b < 2 \<or> v div b = 0)"
  then have "1 < b" and "0 < v"
    by (auto intro: Nat.gr0I)
  then show "((b, v div b), (b, v)) \<in> measure (\<lambda>(b, v). v)"
    by simp
qed

declare base_digits.simps [simp del]

text \<open>The string a list of digits spells over an alphabet.\<close>

definition spell :: "string list \<Rightarrow> nat list \<Rightarrow> string" where
  "spell alphabet ds = concat (map (\<lambda>i. alphabet ! i) ds)"

text \<open>
  The characters \<open>n\<close> rounds of sampling append: round \<open>k\<close> takes draw \<open>k\<close> after the
  current position of the random source and reads the dictionary at the index it gives.
\<close>

definition drawn :: "statics \<Rightarrow> world \<Rightarrow> nat \<Rightarrow> string" where
  "drawn cls w n =
     concat (map (\<lambda>k. js_elem_at (arrays w (dict cls))
                        (js_rem \<lfloor>random_src w (random_pos w + k) * real (dictLength cls)\<rfloor>
                           (int (dictLength cls))))
               [0..<n])"

section \<open>A concrete host\<close>

text \<open>
  A store with nothing in it, a console that logs, and a random source that cycles through
  four draws; the class loaded there by a sort that happened to reverse the array.
\<close>

definition sample_boot :: world where
  "sample_boot =
     \<lparr>arrays = (\<lambda>r. []), next_ref = 0, console = ConsoleWithLog, printed = [],
      random_src = (\<lambda>i. real (i mod 4) / 4), random_pos = 0\<rparr>"

definition sample_class :: statics where
  "sample_class = fst (static_init rev 61 sample_boot)"

definition sample_world :: world where
  "sample_world = snd (static_init rev 61 sample_boot)"

definition sample_instance :: ShortUID where
  "sample_instance = \<lparr>counter = 63, debug = False\<rparr>"

section \<open>The dictionary\<close>

lemma unshuffled_dict_eq:
  "unshuffled_dict = map (\<lambda>c. [c]) ''0123456789abcdefghijklmnopqrstuvwxyzABCDEFGHIJKLMNOPQRSTUVWXYZ''"
  by code_simp

lemma length_unshuffled_dict: "length unshuffled_dict = 62"
  by (simp add: unshuffled_dict_eq)

lemma distinct_unshuffled_dict: "distinct unshuffled_dict"
  by (simp add: unshuffled_dict_eq)

lemma unshuffled_dict_single: "x \<in> set unshuffled_dict \<Longrightarrow> length x = 1"
  by (auto simp add: unshuffled_dict_eq)

lemma class_ok_length: "class_ok cls w \<Longrightarrow> length (arrays w (dict cls)) = 62"
  unfolding class_ok_def using length_unshuffled_dict mset_eq_length by metis

lemma class_ok_dictLength: "class_ok cls w \<Longrightarrow> dictLength cls = 62"
  using class_ok_length by (simp add: class_ok_def)

lemma class_ok_distinct: "class_ok cls w \<Longrightarrow> distinct (arrays w (dict cls))"
  unfolding class_ok_def using distinct_unshuffled_dict mset_eq_imp_distinct_iff by blast

lemma class_ok_set: "class_ok cls w \<Longrightarrow> set (arrays w (dict cls)) = set unshuffled_dict"
  unfolding class_ok_def using mset_eq_setD by blast

lemma class_ok_single:
  "class_ok cls w \<Longrightarrow> i < 62 \<Longrightarrow> length (arrays w (dict cls) ! i) = 1"
  using class_ok_set class_ok_length unshuffled_dict_single nth_mem by metis

lemma static_init_ok:
  assumes "is_reordering sort_random" and "static_init sort_random k w0 = (cls, w)"
  shows "class_ok cls w"
  using assms by (auto simp: is_reordering_def static_init_def class_ok_def Let_def)

section \<open>Whole numbers in doubles\<close>

lemma bit_length_le: "n < 2 ^ w \<Longrightarrow> bit_length n \<le> w"
proof (induction w arbitrary: n)
  case 0
  then show ?case by (subst bit_length.simps) simp
next
  case (Suc w)
  show ?case
  proof (cases "n = 0")
    case True
    then show ?thesis by (subst bit_length.simps) simp
  next
    case False
    have "n div 2 < 2 ^ w"
      using Suc.prems by simp
    from Suc.IH [OF this] False show ?thesis
      by (subst bit_length.simps) simp
  qed
qed

lemma bit_length_eq: "2 ^ w \<le> n \<Longrightarrow> n < 2 ^ Suc w \<Longrightarrow> bit_length n = Suc w"
proof (induction w arbitrary: n)
  case 0
  then have "n = Suc 0" by simp
  then show ?case
    by (simp add: bit_length.simps [of "Suc 0"] bit_length.simps [of 0])
next
  case (Suc w)
  have "2 ^ w \<le> n div 2" "n div 2 < 2 ^ Suc w"
    using Suc.prems by simp_all
  from Suc.IH [OF this] Suc.prems show ?case
    by (subst bit_length.simps) auto
qed

lemma round_half_even_exact: "0 < b \<Longrightarrow> round_half_even (k * b) b = k"
  by (simp add: round_half_even_def)

lemma double_round_exact: "n \<le> exact_limit \<Longrightarrow> double_round n = n"
proof (cases "n < 2 ^ 53")
  case True
  from bit_length_le [OF this] show ?thesis
    by (simp add: double_round_def)
next
  case False
  assume "n \<le> exact_limit"
  with False have n: "n = 2 ^ 53"
    by (simp add: exact_limit_def)
  have "bit_length n = Suc 53"
    by (rule bit_length_eq) (simp_all add: n)
  moreover have "round_half_even (2 ^ 53) 2 = 2 ^ 52"
    using round_half_even_exact [of 2 "2 ^ 52"] by simp
  ultimately show ?thesis
    by (simp add: double_round_def n)
qed

lemma js_increment_exact: "v < exact_limit \<Longrightarrow> js_increment v = v + 1"
  by (simp add: js_increment_def double_round_exact)

lemma js_increment_limit: "js_increment exact_limit = exact_limit"
proof -
  have "bit_length (2 ^ 53 + 1) = Suc 53"
    by (rule bit_length_eq) simp_all
  moreover have "round_half_even (2 ^ 53 + 1) 2 = 2 ^ 52"
    by (simp add: round_half_even_def)
  ultimately show ?thesis
    by (simp add: js_increment_def double_round_def exact_limit_def)
qed

lemma js_floor_div_exact:
  assumes "v \<le> exact_limit"
  shows "js_floor_div v 62 = v div 62"
proof -
  define k where "k = v div 62"
  define r where "r = v mod 62"
  define l where "l = bit_length k"
  define x :: nat where "x = 2 ^ (53 - l)"
  have v: "v = 62 * k + r" and r: "r < 62"
    by (simp_all add: k_def r_def)
  have "k < 2 ^ 48"
    using assms by (simp add: k_def exact_limit_def)
  then have l: "l \<le> 48"
    unfolding l_def by (rule bit_length_le)
  have "(2::nat) ^ 5 \<le> 2 ^ (53 - l)"
    using l by (intro power_increasing) simp_all
  then have x: "32 \<le> x"
    by (simp add: x_def)
  define y where "y = r * x"
  have y: "y \<le> 61 * x"
    unfolding y_def using r by (intro mult_le_mono1) simp
  have vx: "v * x = 62 * (k * x) + y"
    unfolding v y_def by (simp add: algebra_simps)
  have dq: "v * x div 62 = k * x + y div 62" and rm: "v * x mod 62 = y mod 62"
    unfolding vx by simp_all
  define q where "q = y div 62"
  define m where "m = y mod 62"
  have split: "y = 62 * q + m" and m: "m < 62"
    by (simp_all add: q_def m_def)
  have down: "q < x"
    using split y x by arith
  have up: "q + 1 < x" if "31 \<le> m"
    using that split y x by arith
  have small: "round_half_even y 62 < x"
  proof (cases "2 * m < 62")
    case True
    then show ?thesis
      using down by (simp add: round_half_even_def Let_def q_def [symmetric] m_def [symmetric])
  next
    case False
    then have "31 \<le> m" by arith
    from up [OF this] down show ?thesis
      by (simp add: round_half_even_def Let_def q_def [symmetric] m_def [symmetric])
  qed
  have "even x"
    unfolding x_def using l by simp
  then have "round_half_even (v * x) 62 = k * x + round_half_even y 62"
    unfolding round_half_even_def Let_def dq rm by auto
  then have "round_half_even (v * x) 62 div x = k"
    using small x by simp
  then show ?thesis
    using l by (simp add: js_floor_div_def Let_def k_def [symmetric] l_def [symmetric] x_def [symmetric])
qed

section \<open>Digits and the loop of the counter\<close>

lemma base_digits_nonempty: "base_digits b v \<noteq> []"
  by (subst base_digits.simps) simp

lemma hd_base_digits: "hd (base_digits b v) = v mod b"
  by (subst base_digits.simps) simp

lemma base_digits_below: "0 < b \<Longrightarrow> list_all (\<lambda>x. x < b) (base_digits b v)"
proof (induction b v rule: base_digits.induct)
  case (1 b v)
  then show ?case by (subst base_digits.simps) simp
qed

lemma base_digits_value: "2 \<le> b \<Longrightarrow> positional_value b (base_digits b v) = v"
proof (induction b v rule: base_digits.induct)
  case (1 b v)
  show ?case
  proof (cases "v div b = 0")
    case True
    with 1 show ?thesis by (subst base_digits.simps) (simp add: div_eq_0_iff)
  next
    case False
    with 1 show ?thesis by (subst base_digits.simps) simp
  qed
qed

lemma base_digits_last: "2 \<le> b \<Longrightarrow> length (base_digits b v) \<noteq> 1 \<Longrightarrow> last (base_digits b v) \<noteq> 0"
proof (induction b v rule: base_digits.induct)
  case (1 b v)
  show ?case
  proof (cases "v div b = 0")
    case True
    with 1(3) show ?thesis by (subst (asm) base_digits.simps) simp
  next
    case False
    note nz = this
    have step: "base_digits b v = (v mod b) # base_digits b (v div b)"
      using 1(2) nz by (subst base_digits.simps) simp
    show ?thesis
    proof (cases "length (base_digits b (v div b)) = 1")
      case True
      have "(v div b) div b = 0"
      proof (rule ccontr)
        assume "(v div b) div b \<noteq> 0"
        then have "base_digits b (v div b) = ((v div b) mod b) # base_digits b ((v div b) div b)"
          using 1(2) by (subst base_digits.simps) simp
        with True show False by (simp add: base_digits_nonempty)
      qed
      then have "base_digits b (v div b) = [(v div b) mod b]"
        by (subst base_digits.simps) simp
      moreover have "(v div b) mod b = v div b"
        using \<open>(v div b) div b = 0\<close> 1(2) by (simp add: div_eq_0_iff)
      ultimately show ?thesis using step nz by simp
    next
      case False
      with 1 nz step show ?thesis by (simp add: base_digits_nonempty)
    qed
  qed
qed

lemma base_digits_encoding: "2 \<le> b \<Longrightarrow> lsd_encoding b v (base_digits b v)"
  unfolding lsd_encoding_def
  using base_digits_nonempty base_digits_below [of b v] base_digits_value base_digits_last
  by auto

lemma counterUUID_loop_digits:
  "dictLength cls = 62 \<Longrightarrow> v \<le> exact_limit \<Longrightarrow>
   counterUUID_loop cls w v uid =
     Some (uid @ concat (map (js_elem (arrays w (dict cls))) (base_digits (dictLength cls) v)))"
proof (induction "dictLength cls" v arbitrary: uid rule: base_digits.induct)
  case (1 v)
  have q: "js_floor_div v (dictLength cls) = v div 62"
    using 1(2,3) by (simp add: js_floor_div_exact)
  show ?case
  proof (cases "v div 62 = 0")
    case True
    with 1(2) q show ?thesis
      by (subst counterUUID_loop.simps, subst base_digits.simps) (simp add: Let_def)
  next
    case False
    have "v div 62 \<le> exact_limit"
      using 1(3) by (rule order_trans [OF div_le_dividend])
    with 1(1) [OF _ 1(2)] 1(2) False q show ?thesis
      by (subst counterUUID_loop.simps, subst base_digits.simps) (simp add: Let_def)
  qed
qed

lemma spell_js_elem:
  "list_all (\<lambda>x. x < length alphabet) ds \<Longrightarrow> concat (map (js_elem alphabet) ds) = spell alphabet ds"
  unfolding spell_def by (induction ds) (simp_all add: js_elem_def)

section \<open>The loop of the random generator\<close>

lemma less_ceiling_nat: "(real i < x) = (i < nat \<lceil>x\<rceil>)"
  by linarith

lemma drawn_Suc:
  "drawn cls w (Suc n) =
     js_elem_at (arrays w (dict cls))
       (js_rem \<lfloor>random_src w (random_pos w) * real (dictLength cls)\<rfloor> (int (dictLength cls)))
     @ drawn cls (snd (Math_random w)) n"
  unfolding drawn_def Math_random_def
  by (simp add: upt_conv_Cons map_Suc_upt [symmetric] comp_def del: upt_Suc)

lemma randomUUID_loop_finite:
  assumes "to_number len = Finite x"
  shows "nat \<lceil>x\<rceil> - i = n \<Longrightarrow>
         randomUUID_loop cls len i uid w =
           Some (uid @ drawn cls w n, w\<lparr>random_pos := random_pos w + n\<rparr>)"
proof (induction n arbitrary: i uid w)
  case 0
  then have "\<not> i < nat \<lceil>x\<rceil>"
    by arith
  then have "\<not> real i < x"
    using less_ceiling_nat [of i x] by blast
  then have "\<not> js_less (js_of_nat i) len"
    using assms by (simp add: js_less_def js_of_nat_def)
  then show ?case
    by (subst randomUUID_loop.simps) (simp add: drawn_def)
next
  case (Suc n)
  then have "i < nat \<lceil>x\<rceil>"
    by arith
  then have "real i < x"
    using less_ceiling_nat [of i x] by blast
  then have go: "js_less (js_of_nat i) len"
    using assms by (simp add: js_less_def js_of_nat_def)
  from Suc.prems have "nat \<lceil>x\<rceil> - (i + 1) = n"
    by arith
  from Suc.IH [OF this] go show ?case
    by (subst randomUUID_loop.simps) (simp add: drawn_Suc Math_random_def Let_def)
qed

lemma randomUUID_loop_returns:
  assumes "randomUUID_loop cls len i uid w = Some y"
  shows "to_number len \<noteq> PosInfinity"
  by (rule randomUUID_loop.raw_induct
        [where P = "\<lambda>cls len i uid w y. to_number len \<noteq> PosInfinity", OF _ assms])
     (auto simp: js_less_def js_of_nat_def Let_def split: if_splits)

lemma randomUUID_loop_infinite:
  "to_number len = PosInfinity \<Longrightarrow> randomUUID_loop cls len i uid w = None"
  using randomUUID_loop_returns by (cases "randomUUID_loop cls len i uid w") auto

lemma randomUUID_loop_skips:
  "to_number len = NaN \<or> to_number len = NegInfinity \<Longrightarrow>
   randomUUID_loop cls len i uid w = Some (uid, w)"
  by (subst randomUUID_loop.simps) (auto simp: js_less_def js_of_nat_def)

section \<open>Encoding the counter\<close>

lemma counterUUID_closed:
  assumes "class_ok cls w" and "counter this \<le> exact_limit"
  shows "counterUUID cls w this =
           Some (spell (arrays w (dict cls)) (base_digits 62 (counter this)),
                 this\<lparr>counter := js_increment (counter this)\<rparr>)"
proof -
  have len: "dictLength cls = 62" "length (arrays w (dict cls)) = 62"
    using assms(1) by (simp_all add: class_ok_dictLength class_ok_length)
  have "list_all (\<lambda>x. x < length (arrays w (dict cls))) (base_digits 62 (counter this))"
    using base_digits_below [of 62 "counter this"] len by simp
  then show ?thesis
    using len counterUUID_loop_digits [OF len(1) assms(2), of w "[]"]
    by (simp add: counterUUID_def spell_js_elem)
qed

text \<open>The loop reads the host only at the dictionary.\<close>

lemma counterUUID_loop_returns:
  assumes "counterUUID_loop cls w v uid = Some y"
    and "arrays w2 (dict cls) = arrays w (dict cls)"
  shows "counterUUID_loop cls w2 v uid = Some y"
proof -
  have "arrays w2 (dict cls) = arrays w (dict cls) \<longrightarrow> counterUUID_loop cls w2 v uid = Some y"
  proof (rule counterUUID_loop.raw_induct
      [where P = "\<lambda>cls w v uid y. arrays w2 (dict cls) = arrays w (dict cls) \<longrightarrow>
                    counterUUID_loop cls w2 v uid = Some y", OF _ assms(1)])
    fix f cls w v uid y
    assume ih: "\<And>cls w v uid y. f cls w v uid = Some y \<Longrightarrow>
        arrays w2 (dict cls) = arrays w (dict cls) \<longrightarrow> counterUUID_loop cls w2 v uid = Some y"
      and step: "(if dictLength cls = 0 then None
         else let counterRem = v mod dictLength cls;
                  counterDiv' = js_floor_div v (dictLength cls);
                  uid' = uid @ js_elem (arrays w (dict cls)) counterRem
              in if counterDiv' = 0 then Some uid' else f cls w counterDiv' uid') = Some y"
    show "arrays w2 (dict cls) = arrays w (dict cls) \<longrightarrow> counterUUID_loop cls w2 v uid = Some y"
    proof
      assume same: "arrays w2 (dict cls) = arrays w (dict cls)"
      from step have nz: "dictLength cls \<noteq> 0"
        by (auto split: if_splits)
      show "counterUUID_loop cls w2 v uid = Some y"
      proof (cases "js_floor_div v (dictLength cls) = 0")
        case True
        with step nz same show ?thesis
          by (subst counterUUID_loop.simps) (simp add: Let_def)
      next
        case False
        with step nz have "f cls w (js_floor_div v (dictLength cls))
            (uid @ js_elem (arrays w (dict cls)) (v mod dictLength cls)) = Some y"
          by (simp add: Let_def)
        from ih [OF this] same False nz show ?thesis
          by (subst counterUUID_loop.simps) (simp add: Let_def)
      qed
    qed
  qed
  with assms(2) show ?thesis
    by simp
qed

lemma counterUUID_cong:
  assumes "arrays w2 (dict cls) = arrays w (dict cls)"
  shows "counterUUID cls w2 this = counterUUID cls w this"
proof -
  have "counterUUID_loop cls w2 v uid = counterUUID_loop cls w v uid" for v uid
  proof (cases "counterUUID_loop cls w v uid")
    case None
    show ?thesis
    proof (cases "counterUUID_loop cls w2 v uid")
      case None
      with \<open>counterUUID_loop cls w v uid = None\<close> show ?thesis by simp
    next
      case (Some y)
      from counterUUID_loop_returns [OF this assms [symmetric]] None show ?thesis
        by simp
    qed
  next
    case (Some y)
    from counterUUID_loop_returns [OF this assms] Some show ?thesis
      by simp
  qed
  then show ?thesis
    by (simp add: counterUUID_def)
qed

lemma length_spell:
  assumes "class_ok cls w" and "list_all (\<lambda>x. x < 62) ds"
  shows "length (spell (arrays w (dict cls)) ds) = length ds"
  using assms(2) unfolding spell_def
  by (induction ds) (simp_all add: class_ok_single [OF assms(1)])

lemma spell_Cons: "spell a (x # xs) = a ! x @ spell a xs"
  by (simp add: spell_def)

lemma spell_inj:
  assumes "class_ok cls w"
  shows "list_all (\<lambda>x. x < 62) ds \<Longrightarrow> list_all (\<lambda>x. x < 62) es \<Longrightarrow>
         spell (arrays w (dict cls)) ds = spell (arrays w (dict cls)) es \<Longrightarrow> ds = es"
proof (induction ds arbitrary: es)
  case Nil
  then have "length (spell (arrays w (dict cls)) es) = 0"
    by (simp add: spell_def)
  then show ?case
    using length_spell [OF assms Nil.prems(2)] by simp
next
  case (Cons x xs)
  show ?case
  proof (cases es)
    case Nil
    with Cons.prems have "length (spell (arrays w (dict cls)) (x # xs)) = 0"
      by (simp add: spell_def)
    then show ?thesis
      using length_spell [OF assms Cons.prems(1)] by simp
  next
    case (Cons y ys)
    have lx: "length (arrays w (dict cls) ! x) = 1" and ly: "length (arrays w (dict cls) ! y) = 1"
      using Cons.prems Cons class_ok_single [OF assms] by simp_all
    from Cons.prems(3) Cons lx ly
    have heads: "arrays w (dict cls) ! x = arrays w (dict cls) ! y"
      and tails: "spell (arrays w (dict cls)) xs = spell (arrays w (dict cls)) ys"
      by (simp_all add: spell_Cons append_eq_append_conv)
    have "x = y"
      using heads Cons.prems(1,2) Cons class_ok_distinct [OF assms] class_ok_length [OF assms]
      by (simp add: nth_eq_iff_index_eq)
    moreover have "xs = ys"
      using Cons.IH [of ys] tails Cons.prems(1,2) Cons by simp
    ultimately show ?thesis
      using Cons by simp
  qed
qed

lemma encode_inj:
  assumes "class_ok cls w"
    and "spell (arrays w (dict cls)) (base_digits 62 u) = spell (arrays w (dict cls)) (base_digits 62 v)"
  shows "u = v"
proof -
  have "base_digits 62 u = base_digits 62 v"
    using spell_inj [OF assms(1) _ _ assms(2)] base_digits_below [of 62] by simp
  then have "positional_value 62 (base_digits 62 u) = positional_value 62 (base_digits 62 v)"
    by simp
  then show ?thesis
    by (simp add: base_digits_value)
qed

section \<open>What logging changes\<close>

lemma log_message_only_prints:
  "log_message this m w = Inr w' \<Longrightarrow> w' = w\<lparr>printed := printed w'\<rparr>"
  by (cases "console w") (auto simp: log_message_def Let_def split: if_splits)

lemma log_message_frame:
  assumes "log_message this m w = Inr w'"
  shows "arrays w' = arrays w" and "next_ref w' = next_ref w" and "console w' = console w"
    and "random_src w' = random_src w" and "random_pos w' = random_pos w"
proof -
  obtain p where "w' = w\<lparr>printed := p\<rparr>"
    using log_message_only_prints [OF assms] ..
  then show "arrays w' = arrays w" and "next_ref w' = next_ref w" and "console w' = console w"
    and "random_src w' = random_src w" and "random_pos w' = random_pos w"
    by simp_all
qed

lemma log_message_safe:
  "\<not> debug this \<or> log_safe w \<Longrightarrow> \<exists>w'. log_message this m w = Inr w'"
  by (cases "console w") (auto simp: log_message_def Let_def log_safe_def)



lemma class_ok_cong:
  "arrays w' (dict cls) = arrays w (dict cls) \<Longrightarrow> next_ref w \<le> next_ref w' \<Longrightarrow>
   class_ok cls w \<Longrightarrow> class_ok cls w'"
  by (simp add: class_ok_def)

lemma class_ok_log:
  "log_message this m w = Inr w' \<Longrightarrow> class_ok cls w \<Longrightarrow> class_ok cls w'"
  by (rule class_ok_cong) (simp_all add: log_message_frame)

lemma resetCounter_frame:
  assumes "resetCounter this w = (res, this', w')"
  shows "this' = this\<lparr>counter := 0\<rparr>" and "arrays w' = arrays w" and "next_ref w' = next_ref w"
    and "console w' = console w" and "random_src w' = random_src w"
    and "random_pos w' = random_pos w" and "class_ok cls w \<Longrightarrow> class_ok cls w'"
  using assms
  by (auto simp: resetCounter_def Let_def log_message_frame class_ok_log split: sum.splits)

lemma new_ShortUID_frame:
  assumes "new_ShortUID cls options w = Inr (this, w')"
  shows "counter this = 0" and "arrays w' = arrays w" and "next_ref w' = next_ref w"
    and "console w' = console w" and "random_src w' = random_src w"
    and "random_pos w' = random_pos w" and "class_ok cls w \<Longrightarrow> class_ok cls w'"
  using assms
  by (auto simp: new_ShortUID_def Let_def log_message_frame class_ok_log split: sum.splits)

section \<open>What the random generator returns\<close>

lemma js_rem_index: "0 \<le> a \<Longrightarrow> a < b \<Longrightarrow> js_rem a b = Some a"
  by (cases "a = 0") (simp_all add: js_rem_def)

lemma draw_index:
  assumes "0 \<le> r" and "r < 1" and "0 < n"
  shows "js_rem \<lfloor>r * real n\<rfloor> (int n) = Some \<lfloor>r * real n\<rfloor>"
    and "0 \<le> \<lfloor>r * real n\<rfloor>" and "nat \<lfloor>r * real n\<rfloor> < n"
proof -
  have nonneg: "0 \<le> r * real n"
    using assms by simp
  then show low: "0 \<le> \<lfloor>r * real n\<rfloor>"
    by simp
  have "r * real n < real n"
    using assms by simp
  then have up: "\<lfloor>r * real n\<rfloor> < int n"
    by (simp add: floor_less_iff)
  then show "js_rem \<lfloor>r * real n\<rfloor> (int n) = Some \<lfloor>r * real n\<rfloor>"
    using low by (simp add: js_rem_index)
  show "nat \<lfloor>r * real n\<rfloor> < n"
    using low up by linarith
qed

lemma drawn_entry:
  assumes "class_ok cls w" and "random_ok w"
  shows "\<exists>i<62. js_elem_at (arrays w (dict cls))
            (js_rem \<lfloor>random_src w k * real (dictLength cls)\<rfloor> (int (dictLength cls))) =
          arrays w (dict cls) ! i"
proof -
  have len: "dictLength cls = 62" "length (arrays w (dict cls)) = 62"
    using assms(1) by (simp_all add: class_ok_dictLength class_ok_length)
  have r: "0 \<le> random_src w k" "random_src w k < 1"
    using assms(2) by (simp_all add: random_ok_def)
  show ?thesis
    using draw_index [OF r, of 62] len
    by (intro exI [of _ "nat \<lfloor>random_src w k * 62\<rfloor>"]) (simp add: js_elem_at_def js_elem_def)
qed

lemma length_drawn:
  assumes "class_ok cls w" and "random_ok w"
  shows "length (drawn cls w n) = n"
proof -
  have "length (js_elem_at (arrays w (dict cls))
            (js_rem \<lfloor>random_src w k * real (dictLength cls)\<rfloor> (int (dictLength cls)))) = 1" for k
    using drawn_entry [OF assms, of k] class_ok_single [OF assms(1)] by auto
  then show ?thesis
    by (simp add: drawn_def length_concat comp_def sum_list_triv)
qed

lemma set_drawn:
  assumes "class_ok cls w" and "random_ok w" and "c \<in> set (drawn cls w n)"
  shows "[c] \<in> set (arrays w (dict cls))"
proof -
  from assms(3) obtain k where
    c: "c \<in> set (js_elem_at (arrays w (dict cls))
            (js_rem \<lfloor>random_src w (random_pos w + k) * real (dictLength cls)\<rfloor> (int (dictLength cls))))"
    by (auto simp: drawn_def)
  obtain i where i: "i < 62" and
    e: "js_elem_at (arrays w (dict cls))
            (js_rem \<lfloor>random_src w (random_pos w + k) * real (dictLength cls)\<rfloor> (int (dictLength cls)))
         = arrays w (dict cls) ! i"
    using drawn_entry [OF assms(1,2)] by blast
  have "length (arrays w (dict cls) ! i) = 1"
    using class_ok_single [OF assms(1) i] .
  then have "arrays w (dict cls) ! i = [c]"
    using c e by (cases "arrays w (dict cls) ! i") auto
  then show ?thesis
    using i class_ok_length [OF assms(1)] nth_mem [of i "arrays w (dict cls)"] by simp
qed

lemma drawn_cong:
  "arrays w2 (dict cls) = arrays w (dict cls) \<Longrightarrow> random_src w2 = random_src w \<Longrightarrow>
   random_pos w2 = random_pos w \<Longrightarrow> drawn cls w2 n = drawn cls w n"
  by (simp add: drawn_def)

lemma randomUUID_loop_closed:
  "randomUUID_loop cls len 0 [] w =
     (case to_number len of
        Finite x \<Rightarrow> Some (drawn cls w (nat \<lceil>x\<rceil>), w\<lparr>random_pos := random_pos w + nat \<lceil>x\<rceil>\<rparr>)
      | PosInfinity \<Rightarrow> None
      | NaN \<Rightarrow> Some ([], w)
      | NegInfinity \<Rightarrow> Some ([], w))"
proof (cases "to_number len")
  case (Finite x)
  then show ?thesis
    using randomUUID_loop_finite [of len x 0 "nat \<lceil>x\<rceil>" cls "[]" w] by simp
qed (simp_all add: randomUUID_loop_infinite randomUUID_loop_skips)

lemma randomUUID_finite:
  assumes "1 \<le> x"
  shows "randomUUID cls (Passed (Number (Finite x))) this w =
           Some (Inr (drawn cls w (nat \<lceil>x\<rceil>)), this, w\<lparr>random_pos := random_pos w + nat \<lceil>x\<rceil>\<rparr>)"
  using assms by (simp add: randomUUID_def randomUUID_loop_closed js_less_def js_of_nat_def)

lemma randomUUID_default:
  "randomUUID cls Omitted this w =
     Some (Inr (drawn cls w 6), this, w\<lparr>random_pos := random_pos w + 6\<rparr>)"
  by (simp add: randomUUID_def randomUUID_loop_closed js_less_def js_of_nat_def
      DEFAULT_RANDOM_ID_LEN_def)



lemma randomUUID_frame:
  assumes "randomUUID cls arg this w = Some (res, this', w')"
  shows "this' = this" and "w' = w\<lparr>random_pos := random_pos w'\<rparr>"
  using assms
  by (auto simp: randomUUID_def randomUUID_loop_closed Let_def
      split: if_splits option.splits js_number.splits call_arg.splits js_value.splits)

lemma randomUUID_cong:
  assumes "arrays w2 (dict cls) = arrays w (dict cls)" and "random_src w2 = random_src w"
    and "random_pos w2 = random_pos w"
  shows "map_option fst (randomUUID cls arg this2 w2) = map_option fst (randomUUID cls arg this w)"
  using drawn_cong [OF assms]
  by (simp add: randomUUID_def randomUUID_loop_closed Let_def
      split: js_number.splits call_arg.splits js_value.splits)

section \<open>The concrete host is loaded\<close>

lemma sample_loaded: "class_ok sample_class sample_world"
proof (rule static_init_ok)
  show "is_reordering rev"
    by (simp add: is_reordering_def)
  show "static_init rev 61 sample_boot = (sample_class, sample_world)"
    by (simp add: sample_class_def sample_world_def)
qed

lemma sample_statics: "dict sample_class = 0" "dictLength sample_class = 62"
  by (simp_all add: sample_class_def static_init_def Let_def sample_boot_def
      length_unshuffled_dict)

lemma sample_source:
  "random_src sample_world = (\<lambda>i. real (i mod 4) / 4)" "random_pos sample_world = 61"
  by (simp_all add: sample_world_def static_init_def Let_def sample_boot_def)

lemma sample_alphabet:
  "arrays sample_world (dict sample_class) =
     map (\<lambda>c. [c]) ''ZYXWVUTSRQPONMLKJIHGFEDCBAzyxwvutsrqponmlkjihgfedcba9876543210''"
  by (simp add: sample_world_def sample_class_def static_init_def Let_def sample_boot_def
      unshuffled_dict_eq)

lemma sample_random_ok: "random_ok sample_world"
  by (simp add: random_ok_def sample_source)

lemma sample_drawn:
  "drawn sample_class sample_world 3 = ''Kuf''"
  "drawn sample_class sample_world 6 = ''KufZKu''"
  "drawn sample_class sample_world 10 = ''KufZKufZKu''"
  by (simp_all only: drawn_def sample_alphabet sample_statics sample_source) code_simp+

lemma sample_upt: "[0..<3] = [0, 1, 2]"
  by code_simp

lemma sample_digits:
  "base_digits 62 0 = [0]" "base_digits 62 (Suc 0) = [1]" "base_digits 62 2 = [2]"
  "base_digits 62 63 = [1, 1]"
  by code_simp+


lemma sample_instance_ok: "counter sample_instance \<le> exact_limit"
  by (simp add: sample_instance_def exact_limit_def)

section \<open>The counter-based generator\<close>

text \<open>
  C1, as stated, fails: a counter of \<open>2 ^ 53\<close> is a value the instance reaches, and there
  \<^verbatim>\<open>this.counter++\<close> rounds \<open>2 ^ 53 + 1\<close> back to \<open>2 ^ 53\<close>. The call returns, and the counter
  is what it was.
\<close>

theorem counterUUID_stuck_at_limit:
  "map_option (getCounter \<circ> snd)
     (counterUUID sample_class sample_world \<lparr>counter = 2 ^ 53, debug = False\<rparr>) =
   Some (getCounter \<lparr>counter = 2 ^ 53, debug = False\<rparr>)"
proof -
  have "counter \<lparr>counter = 2 ^ 53, debug = False\<rparr> \<le> exact_limit"
    by (simp add: exact_limit_def)
  from counterUUID_closed [OF sample_loaded this] js_increment_limit show ?thesis
    by (simp add: getCounter_def exact_limit_def)
qed

text \<open>
  C1, amended. For every counter value \<open>v\<close> below \<open>2 ^ 53\<close>, \<^verbatim>\<open>counterUUID()\<close> returns the
  base-62 encoding of \<open>v\<close> over the dictionary with the least significant digit first: the
  digits \<open>ds\<close> are below 62, denote \<open>v\<close> with the first digit weighing 1, and have no
  superfluous zero at the top; the string spells them in that order, so its first character
  is the dictionary's entry at \<open>v mod 62\<close>, and for \<open>v = 0\<close> it is the single character at
  index 0. The counter is one more afterwards.
\<close>

theorem counterUUID_encoding:
  assumes "class_ok cls w" and "getCounter this < 2 ^ 53"
  shows "\<exists>uid ds this'.
           counterUUID cls w this = Some (uid, this') \<and>
           getCounter this' = getCounter this + 1 \<and> debug this' = debug this \<and>
           lsd_encoding 62 (getCounter this) ds \<and>
           uid = spell (arrays w (dict cls)) ds \<and>
           length uid = length ds \<and>
           take 1 uid = arrays w (dict cls) ! (getCounter this mod 62) \<and>
           (getCounter this = 0 \<longrightarrow> uid = arrays w (dict cls) ! 0 \<and> length uid = 1)"
proof -
  define v where "v = counter this"
  define a where "a = arrays w (dict cls)"
  define ds where "ds = base_digits 62 v"
  have v: "v < exact_limit"
    using assms(2) by (simp add: v_def getCounter_def exact_limit_def)
  have below: "list_all (\<lambda>x. x < 62) ds"
    using base_digits_below [of 62 v] by (simp add: ds_def)
  have len: "length (spell a ds) = length ds"
    using length_spell [OF assms(1) below] by (simp add: a_def)
  have first: "ds = (v mod 62) # tl ds"
    using base_digits_nonempty [of 62 v] hd_base_digits [of 62 v] unfolding ds_def
    by (metis list.collapse)
  have single: "length (a ! (v mod 62)) = 1"
    using class_ok_single [OF assms(1), of "v mod 62"] by (simp add: a_def)
  have "spell a ds = a ! (v mod 62) @ spell a (tl ds)"
    by (subst first) (simp add: spell_Cons)
  then have head: "take 1 (spell a ds) = a ! (v mod 62)"
    using single by simp
  have zero: "v = 0 \<Longrightarrow> spell a ds = a ! 0"
    unfolding ds_def by (subst base_digits.simps) (simp add: spell_def)
  have "counterUUID cls w this = Some (spell a ds, this\<lparr>counter := v + 1\<rparr>)"
    using counterUUID_closed [OF assms(1), of this] v js_increment_exact [OF v]
    by (simp add: a_def ds_def v_def)
  moreover have "lsd_encoding 62 v ds"
    unfolding ds_def by (rule base_digits_encoding) simp
  ultimately show ?thesis
    using len head zero single
    by (auto simp: getCounter_def v_def [symmetric] a_def [symmetric])
qed

theorem counterUUID_encoding_witness:
  "class_ok sample_class sample_world \<and> getCounter sample_instance < 2 ^ 53 \<and>
   counterUUID sample_class sample_world sample_instance =
     Some (''YY'', \<lparr>counter = 64, debug = False\<rparr>) \<and>
   lsd_encoding 62 63 [1, 1] \<and>
   spell (arrays sample_world (dict sample_class)) [1, 1] = ''YY'' \<and>
   (\<exists>uid ds this'.
      counterUUID sample_class sample_world sample_instance = Some (uid, this') \<and>
      getCounter this' = getCounter sample_instance + 1 \<and>
      lsd_encoding 62 (getCounter sample_instance) ds \<and>
      uid = spell (arrays sample_world (dict sample_class)) ds \<and>
      take 1 uid = arrays sample_world (dict sample_class) ! (getCounter sample_instance mod 62))"
proof -
  have small: "getCounter sample_instance < 2 ^ 53"
    by (simp add: getCounter_def sample_instance_def)
  have "(63::nat) < exact_limit"
    by (simp add: exact_limit_def)
  then have succ: "js_increment 63 = 64"
    by (simp add: js_increment_exact)
  have yy: "spell (arrays sample_world (dict sample_class)) [1, 1] = ''YY''"
    by (simp add: spell_def sample_alphabet)
  then have "counterUUID sample_class sample_world sample_instance =
          Some (''YY'', \<lparr>counter = 64, debug = False\<rparr>)"
    using counterUUID_closed [OF sample_loaded sample_instance_ok]
    by (simp add: sample_instance_def sample_digits succ)
  moreover have "lsd_encoding 62 63 [1, 1]"
    by (simp add: lsd_encoding_def)
  moreover note yy
  ultimately show ?thesis
    using sample_loaded small counterUUID_encoding [OF sample_loaded small]
    by blast
qed

lemma js_increment_min: "v \<le> exact_limit \<Longrightarrow> js_increment v = min (v + 1) exact_limit"
  using js_increment_exact [of v] js_increment_limit by (cases "v = exact_limit") auto

lemma min_min_add: "min (min a l + k) l = min (a + k) (l::nat)"
  by simp

lemma run_counterUUID:
  assumes "class_ok cls w"
  shows "counter this \<le> exact_limit \<Longrightarrow>
         run cls (replicate n CounterUUID) (this, w) =
           Some (map (\<lambda>k. ReturnedString
                        (spell (arrays w (dict cls))
                           (base_digits 62 (min (counter this + k) exact_limit))))
                   [0..<n],
                 this\<lparr>counter := min (counter this + n) exact_limit\<rparr>, w)"
proof (induction n arbitrary: this)
  case 0
  then show ?case by simp
next
  case (Suc n)
  let ?next = "this\<lparr>counter := js_increment (counter this)\<rparr>"
  have c: "js_increment (counter this) = min (Suc (counter this)) exact_limit"
    using Suc.prems by (simp add: js_increment_min)
  then have le: "counter ?next \<le> exact_limit"
    by simp
  have upt: "[0..<Suc n] = 0 # map Suc [0..<n]"
    by (simp add: upt_conv_Cons map_Suc_upt del: upt_Suc)
  have here: "min (counter this) exact_limit = counter this"
    using Suc.prems by simp
  have first: "counterUUID cls w this =
      Some (spell (arrays w (dict cls)) (base_digits 62 (counter this)), ?next)"
    using counterUUID_closed [OF assms Suc.prems] .
  show ?case
    unfolding upt using Suc.IH [OF le]
    by (simp add: first c min_min_add here comp_def del: upt_Suc)
qed

text \<open>
  C2, as stated, fails: a new instance called \<open>2 ^ 53 + 2\<close> times returns the same string
  in its last two calls, and its counter is \<open>2 ^ 53\<close> afterwards.
\<close>

theorem counterUUID_repeats_past_limit:
  "exact_limit = 2 ^ 53 \<and>
   new_ShortUID sample_class None sample_world =
     Inr (\<lparr>counter = 0, debug = False\<rparr>, sample_world) \<and>
   map_option (distinct \<circ> fst)
     (run sample_class (replicate (exact_limit + 2) CounterUUID)
        (\<lparr>counter = 0, debug = False\<rparr>, sample_world)) = Some False \<and>
   map_option (getCounter \<circ> fst \<circ> snd)
     (run sample_class (replicate (exact_limit + 2) CounterUUID)
        (\<lparr>counter = 0, debug = False\<rparr>, sample_world)) = Some exact_limit"
proof -
  let ?f = "\<lambda>k. ReturnedString
              (spell (arrays sample_world (dict sample_class))
                 (base_digits 62 (min k exact_limit)))"
  let ?run = "run sample_class (replicate (exact_limit + 2) CounterUUID)
        (\<lparr>counter = 0, debug = False\<rparr>, sample_world)"
  have lim: "exact_limit = 2 ^ 53"
    by (simp add: exact_limit_def)
  have fresh: "new_ShortUID sample_class None sample_world =
     Inr (\<lparr>counter = 0, debug = False\<rparr>, sample_world)"
    by (simp add: new_ShortUID_def log_message_def)
  have "counter \<lparr>counter = 0, debug = False\<rparr> \<le> exact_limit"
    by simp
  from run_counterUUID [OF sample_loaded this, of "exact_limit + 2"]
  have run: "?run =
      Some (map ?f [0..<exact_limit + 2], \<lparr>counter = exact_limit, debug = False\<rparr>, sample_world)"
    by (simp del: upt_Suc replicate_Suc add: min_def)
  have "?f exact_limit = ?f (exact_limit + 1)"
    by simp
  moreover have "exact_limit \<in> set [0..<exact_limit + 2]"
    and "exact_limit + 1 \<in> set [0..<exact_limit + 2]"
    by simp_all
  moreover have "exact_limit \<noteq> exact_limit + 1"
    by simp
  ultimately have "\<not> inj_on ?f (set [0..<exact_limit + 2])"
    unfolding inj_on_def by blast
  then have nd: "\<not> distinct (map ?f [0..<exact_limit + 2])"
    by (simp only: distinct_map) simp
  have "map_option (distinct \<circ> fst) ?run = Some (distinct (map ?f [0..<exact_limit + 2]))"
    unfolding run by (simp only: option.map comp_apply fst_conv)
  then have d: "map_option (distinct \<circ> fst) ?run = Some False"
    by (simp only: nd)
  have c: "map_option (getCounter \<circ> fst \<circ> snd) ?run = Some exact_limit"
    unfolding run
    by (simp only: option.map comp_apply fst_conv snd_conv getCounter_def ShortUID.select_convs)
  show ?thesis
    by (intro conjI lim fresh d c)
qed

text \<open>
  C2, amended. A fresh instance called \<open>N\<close> times through \<^verbatim>\<open>counterUUID()\<close>, for \<open>N\<close> up to
  \<open>2 ^ 53\<close>, returns \<open>N\<close> strings, no two of them equal, and \<^verbatim>\<open>getCounter()\<close> is \<open>N\<close>
  afterwards. The encoding is an injective function of the natural numbers, and it is what
  the call returns for every counter up to \<open>2 ^ 53\<close>.
\<close>

theorem counterUUID_distinct:
  assumes "class_ok cls w0" and "new_ShortUID cls options w0 = Inr (this, w)" and "N \<le> 2 ^ 53"
  shows "(\<exists>uids this'.
            run cls (replicate N CounterUUID) (this, w) = Some (map ReturnedString uids, this', w) \<and>
            length uids = N \<and> distinct uids \<and> getCounter this' = N) \<and>
         inj (\<lambda>v. spell (arrays w (dict cls)) (base_digits 62 v)) \<and>
         inj_on (\<lambda>v. map_option fst (counterUUID cls w (this\<lparr>counter := v\<rparr>))) {v. v \<le> 2 ^ 53}"
proof -
  have ok: "class_ok cls w" and zero: "counter this = 0"
    using new_ShortUID_frame [OF assms(2)] assms(1) by simp_all
  have n: "N \<le> exact_limit"
    using assms(3) by (simp add: exact_limit_def)
  define enc where "enc v = spell (arrays w (dict cls)) (base_digits 62 v)" for v
  have inj_enc: "inj enc"
    unfolding enc_def by (rule injI) (rule encode_inj [OF ok])
  have below: "min k exact_limit = k" if "k \<in> set [0..<N]" for k
    using that n by simp
  have "map (\<lambda>k. ReturnedString (enc (min k exact_limit))) [0..<N] =
      map (\<lambda>k. ReturnedString (enc k)) [0..<N]"
    by (rule map_cong) (simp_all only: below)
  then have "run cls (replicate N CounterUUID) (this, w) =
          Some (map ReturnedString (map enc [0..<N]), this\<lparr>counter := N\<rparr>, w)"
    using run_counterUUID [OF ok, of this N] zero n by (simp add: enc_def comp_def min_def)
  moreover have "distinct (map enc [0..<N])"
    using inj_enc by (simp add: distinct_map inj_on_def inj_def)
  ultimately have first: "\<exists>uids this'.
      run cls (replicate N CounterUUID) (this, w) = Some (map ReturnedString uids, this', w) \<and>
      length uids = N \<and> distinct uids \<and> getCounter this' = N"
    by (intro exI [of _ "map enc [0..<N]"] exI [of _ "this\<lparr>counter := N\<rparr>"])
       (simp add: getCounter_def)
  have ret: "map_option fst (counterUUID cls w (this\<lparr>counter := v\<rparr>)) = Some (enc v)"
    if "v \<le> 2 ^ 53" for v
    using that counterUUID_closed [OF ok, of "this\<lparr>counter := v\<rparr>"]
    by (simp add: enc_def exact_limit_def)
  have "inj_on (\<lambda>v. map_option fst (counterUUID cls w (this\<lparr>counter := v\<rparr>))) {v. v \<le> 2 ^ 53}"
  proof (rule inj_onI)
    fix x y :: nat
    assume "x \<in> {v. v \<le> 2 ^ 53}" and "y \<in> {v. v \<le> 2 ^ 53}"
      and "map_option fst (counterUUID cls w (this\<lparr>counter := x\<rparr>)) =
           map_option fst (counterUUID cls w (this\<lparr>counter := y\<rparr>))"
    then have "enc x = enc y"
      using ret [of x] ret [of y] by simp
    then show "x = y"
      using inj_enc by (simp add: inj_def)
  qed
  with first inj_enc show ?thesis
    unfolding enc_def by (intro conjI)
qed

theorem counterUUID_distinct_witness:
  "class_ok sample_class sample_world \<and>
   new_ShortUID sample_class None sample_world =
     Inr (\<lparr>counter = 0, debug = False\<rparr>, sample_world) \<and>
   (3::nat) \<le> 2 ^ 53 \<and>
   map_option fst
     (run sample_class (replicate 3 CounterUUID) (\<lparr>counter = 0, debug = False\<rparr>, sample_world)) =
     Some (map ReturnedString [''Z'', ''Y'', ''X'']) \<and>
   (\<exists>uids this'.
      run sample_class (replicate 3 CounterUUID) (\<lparr>counter = 0, debug = False\<rparr>, sample_world) =
        Some (map ReturnedString uids, this', sample_world) \<and>
      length uids = 3 \<and> distinct uids \<and> getCounter this' = 3)"
proof -
  have fresh: "new_ShortUID sample_class None sample_world =
                 Inr (\<lparr>counter = 0, debug = False\<rparr>, sample_world)"
    by (simp add: new_ShortUID_def log_message_def)
  have three: "(3::nat) \<le> 2 ^ 53"
    by simp
  have start: "counter \<lparr>counter = 0, debug = False\<rparr> \<le> exact_limit"
    by simp
  have "(3::nat) \<le> exact_limit"
    by (simp add: exact_limit_def)
  then have mins: "min 0 exact_limit = 0" "min (Suc 0) exact_limit = Suc 0" "min 2 exact_limit = 2"
    by simp_all
  have "map_option fst
          (run sample_class (replicate 3 CounterUUID) (\<lparr>counter = 0, debug = False\<rparr>, sample_world)) =
          Some (map ReturnedString [''Z'', ''Y'', ''X''])"
    using run_counterUUID [OF sample_loaded start, of 3]
    by (simp add: sample_upt sample_digits spell_def sample_alphabet mins)
  then show ?thesis
    using sample_loaded fresh three counterUUID_distinct [OF sample_loaded fresh three]
    by blast
qed

text \<open>
  C8. \<^verbatim>\<open>resetCounter()\<close> leaves the counter at 0 whatever it was, and the next
  \<^verbatim>\<open>counterUUID()\<close> returns what the first call on a new instance returns: the single
  character at index 0 of the dictionary. (The counter is 0 also when the call to log
  throws; a new instance exists whenever the constructor returns, which it does without
  debug and on every host where logging returns.)
\<close>

theorem resetCounter_restarts:
  "getCounter (fst (snd (resetCounter this w))) = 0 \<and>
   (class_ok cls w \<longrightarrow>
      map_option fst (counterUUID cls (snd (snd (resetCounter this w)))
                        (fst (snd (resetCounter this w)))) =
        Some (arrays w (dict cls) ! 0) \<and>
      (\<forall>fresh w'. new_ShortUID cls options w = Inr (fresh, w') \<longrightarrow>
         map_option fst (counterUUID cls w' fresh) = Some (arrays w (dict cls) ! 0)) \<and>
      (\<exists>fresh w'. new_ShortUID cls None w = Inr (fresh, w')) \<and>
      (log_safe w \<longrightarrow> (\<exists>fresh w'. new_ShortUID cls options w = Inr (fresh, w'))) \<and>
      length (arrays w (dict cls) ! 0) = 1)"
proof -
  obtain res this' w' where reset: "resetCounter this w = (res, this', w')"
    by (cases "resetCounter this w")
  note rf = resetCounter_frame [OF reset]
  have c0: "getCounter (fst (snd (resetCounter this w))) = 0"
    using rf(1) by (simp add: reset getCounter_def)
  have zero: "base_digits 62 0 = [0]"
    by (subst base_digits.simps) simp
  have encode: "map_option fst (counterUUID cls v s) = Some (arrays w (dict cls) ! 0)"
    if "class_ok cls v" and "counter s = 0" and "arrays v = arrays w" for v s
    using counterUUID_closed [OF that(1), of s] that(2,3) by (simp add: zero spell_def)
  have made: "\<exists>fresh w'. new_ShortUID cls opts w = Inr (fresh, w')"
    if "opts = None \<or> log_safe w" for opts
  proof -
    let ?inst = "\<lparr>counter = 0,
        debug = (case debug_option (case opts of None \<Rightarrow> \<lparr>debug_option = None\<rparr> | Some given \<Rightarrow> given)
                 of None \<Rightarrow> False | Some b \<Rightarrow> b)\<rparr>"
    have "\<not> debug ?inst \<or> log_safe w"
      using that by auto
    from log_message_safe [OF this]
    obtain v where "log_message ?inst
        (''Generator created with Dictionary Size '' @ string_of_nat (dictLength cls)) w = Inr v"
      by blast
    then have "new_ShortUID cls opts w = Inr (?inst, v)"
      by (simp add: new_ShortUID_def Let_def)
    then show ?thesis
      by blast
  qed
  {
    assume ok: "class_ok cls w"
    have "map_option fst (counterUUID cls (snd (snd (resetCounter this w)))
                        (fst (snd (resetCounter this w)))) = Some (arrays w (dict cls) ! 0)"
      using encode [of w' this'] rf(1,2) rf(7) [OF ok] by (simp add: reset)
    moreover have "map_option fst (counterUUID cls v fresh) = Some (arrays w (dict cls) ! 0)"
      if "new_ShortUID cls options w = Inr (fresh, v)" for fresh v
      using encode [of v fresh] new_ShortUID_frame(1,2) [OF that] new_ShortUID_frame(7) [OF that ok]
      by simp
    moreover have "length (arrays w (dict cls) ! 0) = 1"
      using class_ok_single [OF ok, of 0] by simp
    ultimately have "map_option fst (counterUUID cls (snd (snd (resetCounter this w)))
                        (fst (snd (resetCounter this w)))) =
        Some (arrays w (dict cls) ! 0) \<and>
      (\<forall>fresh w'. new_ShortUID cls options w = Inr (fresh, w') \<longrightarrow>
         map_option fst (counterUUID cls w' fresh) = Some (arrays w (dict cls) ! 0)) \<and>
      length (arrays w (dict cls) ! 0) = 1"
      by blast
  }
  with c0 made [of None] made [of options] show ?thesis
    by blast
qed

theorem resetCounter_restarts_witness:
  "class_ok sample_class sample_world \<and> log_safe sample_world \<and>
   resetCounter sample_instance sample_world = (Inr (), \<lparr>counter = 0, debug = False\<rparr>, sample_world) \<and>
   getCounter (fst (snd (resetCounter sample_instance sample_world))) = 0 \<and>
   map_option fst (counterUUID sample_class (snd (snd (resetCounter sample_instance sample_world)))
                     (fst (snd (resetCounter sample_instance sample_world)))) = Some ''Z'' \<and>
   new_ShortUID sample_class None sample_world =
     Inr (\<lparr>counter = 0, debug = False\<rparr>, sample_world) \<and>
   map_option fst (counterUUID sample_class sample_world \<lparr>counter = 0, debug = False\<rparr>) =
     Some ''Z'' \<and>
   arrays sample_world (dict sample_class) ! 0 = ''Z'' \<and>
   fst (resetCounter \<lparr>counter = 63, debug = True\<rparr> (sample_world\<lparr>console := ConsoleUnbound\<rparr>)) =
     Inl ReferenceError \<and>
   getCounter (fst (snd (resetCounter \<lparr>counter = 63, debug = True\<rparr>
                           (sample_world\<lparr>console := ConsoleUnbound\<rparr>)))) = 0"
proof -
  have z: "arrays sample_world (dict sample_class) ! 0 = ''Z''"
    by (simp add: sample_alphabet)
  have safe: "log_safe sample_world"
    by (simp add: log_safe_def sample_world_def static_init_def Let_def sample_boot_def)
  have reset: "resetCounter sample_instance sample_world =
      (Inr (), \<lparr>counter = 0, debug = False\<rparr>, sample_world)"
    by (simp add: resetCounter_def log_message_def sample_instance_def)
  have fresh: "new_ShortUID sample_class None sample_world =
     Inr (\<lparr>counter = 0, debug = False\<rparr>, sample_world)"
    by (simp add: new_ShortUID_def log_message_def)
  have thrown: "fst (resetCounter \<lparr>counter = 63, debug = True\<rparr>
      (sample_world\<lparr>console := ConsoleUnbound\<rparr>)) = Inl ReferenceError"
    by (simp add: resetCounter_def log_message_def)
  note r = resetCounter_restarts [of sample_instance sample_world sample_class None]
  note r' = resetCounter_restarts [of "\<lparr>counter = 63, debug = True\<rparr>"
      "sample_world\<lparr>console := ConsoleUnbound\<rparr>" sample_class None]
  note loaded = r [THEN conjunct2, THEN mp, OF sample_loaded]
  have a: "getCounter (fst (snd (resetCounter sample_instance sample_world))) = 0"
    using r by (rule conjunct1)
  have b: "map_option fst (counterUUID sample_class (snd (snd (resetCounter sample_instance sample_world)))
                     (fst (snd (resetCounter sample_instance sample_world)))) = Some ''Z''"
    using loaded [THEN conjunct1] by (simp only: z)
  have c: "map_option fst (counterUUID sample_class sample_world \<lparr>counter = 0, debug = False\<rparr>) =
     Some ''Z''"
    using loaded [THEN conjunct2, THEN conjunct1, rule_format, OF fresh] by (simp only: z)
  have d: "getCounter (fst (snd (resetCounter \<lparr>counter = 63, debug = True\<rparr>
                           (sample_world\<lparr>console := ConsoleUnbound\<rparr>)))) = 0"
    using r' by (rule conjunct1)
  show ?thesis
    by (intro conjI sample_loaded safe reset a b fresh c z thrown d)
qed

section \<open>The random generator\<close>

lemma getDict_content:
  "arrays (snd (getDict cls w)) (fst (getDict cls w)) = arrays w (dict cls)"
  by (simp add: getDict_def Let_def)







text \<open>
  C4, as stated, fails: the length 2.5 is not below 1, so it passes the check, and the
  string that comes back has three characters, not 2.5.
\<close>

theorem randomUUID_fractional_length:
  "map_option fst
     (randomUUID sample_class (Passed (Number (Finite (5 / 2)))) sample_instance sample_world) =
     Some (Inr ''Kuf'') \<and>
   real (length ''Kuf'') \<noteq> 5 / 2 \<and> \<not> js_less (Number (Finite (5 / 2))) (js_of_nat 1)"
proof -
  have "\<lceil>5 / 2 :: real\<rceil> = 3"
    by (simp add: ceiling_eq_iff)
  then have "map_option fst
     (randomUUID sample_class (Passed (Number (Finite (5 / 2)))) sample_instance sample_world) =
     Some (Inr ''Kuf'')"
    by (simp add: randomUUID_finite sample_drawn)
  then show ?thesis
    by (simp add: js_less_def js_of_nat_def)
qed

text \<open>
  C4, amended. For every whole number \<open>n\<close> of at least 1 passed as the length, the string
  returned has exactly \<open>n\<close> characters; without an argument it has exactly 6.
\<close>

theorem randomUUID_length:
  assumes "class_ok cls w" and "random_ok w"
  shows "(1 \<le> n \<longrightarrow>
            (\<exists>uid w'. randomUUID cls (Passed (js_of_nat n)) this w = Some (Inr uid, this, w') \<and>
               length uid = n)) \<and>
         (\<exists>uid w'. randomUUID cls Omitted this w = Some (Inr uid, this, w') \<and> length uid = 6)"
  using assms
  by (simp add: js_of_nat_def randomUUID_finite randomUUID_default length_drawn)

theorem randomUUID_length_witness:
  "class_ok sample_class sample_world \<and> random_ok sample_world \<and> (1::nat) \<le> 10 \<and>
   map_option fst (randomUUID sample_class (Passed (js_of_nat 10)) sample_instance sample_world) =
     Some (Inr ''KufZKufZKu'') \<and>
   (\<exists>uid w'. randomUUID sample_class (Passed (js_of_nat 10)) sample_instance sample_world =
      Some (Inr uid, sample_instance, w') \<and> length uid = 10) \<and>
   (\<exists>uid w'. randomUUID sample_class Omitted sample_instance sample_world =
      Some (Inr uid, sample_instance, w') \<and> length uid = 6)"
proof -
  have "map_option fst (randomUUID sample_class (Passed (js_of_nat 10)) sample_instance sample_world) =
     Some (Inr ''KufZKufZKu'')"
    by (simp add: js_of_nat_def randomUUID_finite sample_drawn)
  then show ?thesis
    using sample_loaded sample_random_ok
      randomUUID_length [OF sample_loaded sample_random_ok, of 10 sample_instance]
    by simp
qed

text \<open>
  C10. A length of at least 1 that is not a whole number passes the check (it is neither
  null nor below 1), and the string returned has as many characters as the length rounded
  up: the loop's index runs through 0, 1, 2, ... while it is below the length.
\<close>

theorem randomUUID_ceiling:
  assumes "class_ok cls w" and "random_ok w" and "1 \<le> x" and "x \<notin> \<int>"
  shows "\<not> (loose_eq_null (Number (Finite x)) \<or> js_less (Number (Finite x)) (js_of_nat 1)) \<and>
         (\<exists>uid w'. randomUUID cls (Passed (Number (Finite x))) this w = Some (Inr uid, this, w') \<and>
            int (length uid) = \<lceil>x\<rceil> \<and> real (length uid) \<noteq> x)"
proof -
  have "real (nat \<lceil>x\<rceil>) \<noteq> x"
    using assms(4) by (metis Ints_of_nat)
  moreover have "int (nat \<lceil>x\<rceil>) = \<lceil>x\<rceil>"
    using assms(3) by simp
  ultimately show ?thesis
    using assms(1-3)
    by (simp add: randomUUID_finite length_drawn js_less_def js_of_nat_def)
qed

theorem randomUUID_ceiling_witness:
  "class_ok sample_class sample_world \<and> random_ok sample_world \<and> (1::real) \<le> 5 / 2 \<and>
   (5 / 2 :: real) \<notin> \<int> \<and> \<lceil>5 / 2 :: real\<rceil> = 3 \<and>
   (\<exists>uid w'. randomUUID sample_class (Passed (Number (Finite (5 / 2)))) sample_instance sample_world =
      Some (Inr uid, sample_instance, w') \<and> int (length uid) = \<lceil>5 / 2 :: real\<rceil>)"
proof -
  have frac: "(5 / 2 :: real) \<notin> \<int>"
  proof
    assume "(5 / 2 :: real) \<in> \<int>"
    then obtain k :: int where "5 / 2 = real_of_int k"
      by (auto elim: Ints_cases)
    then have "5 = 2 * k"
      by (simp add: field_simps)
    then show False
      by presburger
  qed
  have one: "(1::real) \<le> 5 / 2"
    by simp
  have "\<lceil>5 / 2 :: real\<rceil> = 3"
    by (simp add: ceiling_eq_iff)
  then show ?thesis
    using sample_loaded sample_random_ok one frac
      randomUUID_ceiling [OF sample_loaded sample_random_ok one frac, of sample_instance]
    by blast
qed

lemma randomUUID_returns_drawn:
  assumes "randomUUID cls arg this w = Some (Inr uid, this', w')"
  shows "\<exists>n. uid = drawn cls w n"
proof -
  have "uid = [] \<or> (\<exists>n. uid = drawn cls w n)"
    using assms
    by (auto simp: randomUUID_def randomUUID_loop_closed Let_def
        split: if_splits option.splits js_number.splits call_arg.splits js_value.splits)
  moreover have "[] = drawn cls w 0"
    by (simp add: drawn_def)
  ultimately show ?thesis
    by blast
qed

lemma randomUUID_arrays:
  assumes "randomUUID cls arg this w = Some (res, this', w')"
  shows "arrays w' = arrays w" and "next_ref w' = next_ref w" and "printed w' = printed w"
    and "console w' = console w" and "random_src w' = random_src w"
proof -
  have "w' = w\<lparr>random_pos := random_pos w'\<rparr>"
    using randomUUID_frame(2) [OF assms] .
  then obtain p where "w' = w\<lparr>random_pos := p\<rparr>" ..
  then show "arrays w' = arrays w" and "next_ref w' = next_ref w" and "printed w' = printed w"
    and "console w' = console w" and "random_src w' = random_src w"
    by simp_all
qed

text \<open>
  C7. \<^verbatim>\<open>randomUUID\<close> leaves the counter alone: whatever it returns or throws,
  \<^verbatim>\<open>getCounter()\<close> is the same afterwards. Every character of a returned string is an
  entry of the array \<^verbatim>\<open>getDict()\<close> returns, and for a length of at least 1 the call does
  return, with a string that is not empty.
\<close>

theorem randomUUID_keeps_counter:
  "(\<forall>res this' w'. randomUUID cls arg this w = Some (res, this', w') \<longrightarrow>
      getCounter this' = getCounter this) \<and>
   (class_ok cls w \<and> random_ok w \<longrightarrow>
      (\<forall>uid this' w'. randomUUID cls arg this w = Some (Inr uid, this', w') \<longrightarrow>
         (\<forall>c \<in> set uid. [c] \<in> set (arrays (snd (getDict cls w')) (fst (getDict cls w')))))) \<and>
   (class_ok cls w \<and> random_ok w \<and> 1 \<le> x \<longrightarrow>
      (\<exists>uid this' w'.
         randomUUID cls (Passed (Number (Finite x))) this w = Some (Inr uid, this', w') \<and>
         uid \<noteq> [] \<and> getCounter this' = getCounter this \<and>
         (\<forall>c \<in> set uid. [c] \<in> set (arrays (snd (getDict cls w')) (fst (getDict cls w'))))))"
proof -
  have keep: "getCounter this' = getCounter this"
    if "randomUUID cls arg this w = Some (res, this', w')" for res this' w' arg
    using randomUUID_frame(1) [OF that] by simp
  have member: "[c] \<in> set (arrays (snd (getDict cls w')) (fst (getDict cls w')))"
    if ok: "class_ok cls w" "random_ok w"
      and ret: "randomUUID cls arg this w = Some (Inr uid, this', w')" and c: "c \<in> set uid"
    for uid this' w' c arg
  proof -
    have same: "arrays w' = arrays w"
      using randomUUID_arrays(1) [OF ret] .
    have "\<exists>n. uid = drawn cls w n"
      using randomUUID_returns_drawn [OF ret] .
    then show ?thesis
      using set_drawn [OF ok] c by (auto simp: getDict_content same)
  qed
  have returns: "\<exists>uid this' w'.
         randomUUID cls (Passed (Number (Finite x))) this w = Some (Inr uid, this', w') \<and>
         uid \<noteq> [] \<and> getCounter this' = getCounter this \<and>
         (\<forall>c \<in> set uid. [c] \<in> set (arrays (snd (getDict cls w')) (fst (getDict cls w'))))"
    if ok: "class_ok cls w" "random_ok w" and x: "1 \<le> x"
  proof -
    have r: "randomUUID cls (Passed (Number (Finite x))) this w =
           Some (Inr (drawn cls w (nat \<lceil>x\<rceil>)), this, w\<lparr>random_pos := random_pos w + nat \<lceil>x\<rceil>\<rparr>)"
      using randomUUID_finite [OF x] .
    have "length (drawn cls w (nat \<lceil>x\<rceil>)) = nat \<lceil>x\<rceil>"
      using length_drawn [OF ok] .
    moreover have "0 < nat \<lceil>x\<rceil>"
      using x by simp
    ultimately have "drawn cls w (nat \<lceil>x\<rceil>) \<noteq> []"
      by auto
    then show ?thesis
      using r member [OF ok r] by auto
  qed
  show ?thesis
    using keep member returns by blast
qed

theorem randomUUID_keeps_counter_witness:
  "class_ok sample_class sample_world \<and> random_ok sample_world \<and> (1::real) \<le> 3 \<and>
   getCounter sample_instance = 63 \<and>
   randomUUID sample_class (Passed (Number (Finite 3))) sample_instance sample_world =
     Some (Inr ''Kuf'', sample_instance, sample_world\<lparr>random_pos := 64\<rparr>) \<and>
   (\<exists>uid this' w'.
      randomUUID sample_class (Passed (Number (Finite 3))) sample_instance sample_world =
        Some (Inr uid, this', w') \<and>
      uid \<noteq> [] \<and> getCounter this' = getCounter sample_instance \<and>
      (\<forall>c \<in> set uid. [c] \<in> set (arrays (snd (getDict sample_class w')) (fst (getDict sample_class w')))))"
proof -
  have one: "(1::real) \<le> 3"
    by simp
  have "randomUUID sample_class (Passed (Number (Finite 3))) sample_instance sample_world =
     Some (Inr ''Kuf'', sample_instance, sample_world\<lparr>random_pos := 64\<rparr>)"
    by (simp add: randomUUID_finite sample_drawn sample_source)
  moreover have "getCounter sample_instance = 63"
    by (simp add: getCounter_def sample_instance_def)
  ultimately show ?thesis
    using sample_loaded sample_random_ok one
      randomUUID_keeps_counter [of sample_class "Passed (Number (Finite 3))" sample_instance sample_world 3]
    by blast
qed

section \<open>The dictionary and its copies\<close>

lemma getDict_frame:
  assumes "getDict cls w = (r, w')"
  shows "r = next_ref w" and "next_ref w' = Suc (next_ref w)"
    and "arrays w' = (arrays w)(r := arrays w (dict cls))"
    and "console w' = console w" and "printed w' = printed w"
    and "random_src w' = random_src w" and "random_pos w' = random_pos w"
  using assms by (auto simp: getDict_def Let_def)

lemma getDict_class_ok:
  assumes "class_ok cls w" and "getDict cls w = (r, w')"
  shows "class_ok cls w'" and "r \<noteq> dict cls" and "arrays w' (dict cls) = arrays w (dict cls)"
    and "arrays w' r = arrays w (dict cls)"
proof -
  have lt: "dict cls < next_ref w"
    using assms(1) by (simp add: class_ok_def)
  then show ne: "r \<noteq> dict cls"
    using getDict_frame(1) [OF assms(2)] by simp
  then show same: "arrays w' (dict cls) = arrays w (dict cls)"
    using getDict_frame(3) [OF assms(2)] by simp
  show "arrays w' r = arrays w (dict cls)"
    using getDict_frame(3) [OF assms(2)] by simp
  show "class_ok cls w'"
    using assms(1) same getDict_frame(2) [OF assms(2)] by (simp add: class_ok_def)
qed

lemma client_write_class_ok:
  assumes "class_ok cls w" and "r \<noteq> dict cls"
  shows "class_ok cls (client_write r f w)"
    and "arrays (client_write r f w) (dict cls) = arrays w (dict cls)"
  using assms by (simp_all add: class_ok_def client_write_def)

lemma invoke_class_ok:
  assumes "class_ok cls w" and "invoke cls c (this, w) = Some (out, this', w')"
  shows "class_ok cls w'"
proof (cases c)
  case CounterUUID
  with assms show ?thesis
    by (auto split: option.splits)
next
  case (RandomUUID arg)
  then obtain res where "randomUUID cls arg this w = Some (res, this', w')"
    using assms(2) by (auto split: option.splits sum.splits)
  from randomUUID_arrays(1,2) [OF this] assms(1) show ?thesis
    by (simp add: class_ok_def)
next
  case ResetCounter
  obtain res s v where r: "resetCounter this w = (res, s, v)"
    by (cases "resetCounter this w")
  with assms(2) ResetCounter have "w' = v"
    by (cases res) auto
  with resetCounter_frame(7) [OF r assms(1)] show ?thesis
    by simp
next
  case GetDict
  with assms show ?thesis
    using getDict_class_ok(1) [OF assms(1), of "fst (getDict cls w)" "snd (getDict cls w)"]
    by auto
qed (use assms in auto)

lemma run_class_ok:
  "class_ok cls w \<Longrightarrow> run cls calls (this, w) = Some (outs, this', w') \<Longrightarrow> class_ok cls w'"
proof (induction calls arbitrary: this w outs)
  case Nil
  then show ?case by simp
next
  case (Cons c calls)
  from Cons.prems(2) obtain out this1 w1 outs1 where
    step: "invoke cls c (this, w) = Some (out, this1, w1)"
    and rest: "run cls calls (this1, w1) = Some (outs1, this', w')"
    by (auto split: option.splits)
  from Cons.IH [OF invoke_class_ok [OF Cons.prems(1) step] rest] show ?case .
qed

text \<open>
  C5. Once the class is loaded, and after any sequence of calls, the shared dictionary has
  exactly 62 entries, no two equal: it is a reordering of the one-character strings for
  the digits, the lowercase and the uppercase letters. \<^verbatim>\<open>getDictLength()\<close> is 62, the length
  of the array \<^verbatim>\<open>getDict()\<close> returns.
\<close>

theorem dictionary_invariant:
  assumes "is_reordering sort_random" and "static_init sort_random draws w0 = (cls, w1)"
    and "run cls calls (this, w1) = Some (outs, this', w)"
  shows "length (arrays w (dict cls)) = 62 \<and> distinct (arrays w (dict cls)) \<and>
         mset (arrays w (dict cls)) =
           mset (map (\<lambda>c. [c])
                  ''0123456789abcdefghijklmnopqrstuvwxyzABCDEFGHIJKLMNOPQRSTUVWXYZ'') \<and>
         getDictLength cls = 62 \<and>
         getDictLength cls = length (arrays (snd (getDict cls w)) (fst (getDict cls w)))"
proof -
  have ok: "class_ok cls w"
    using run_class_ok [OF static_init_ok [OF assms(1,2)] assms(3)] .
  have "mset (arrays w (dict cls)) = mset unshuffled_dict"
    using ok by (simp add: class_ok_def)
  then show ?thesis
    using class_ok_length [OF ok] class_ok_distinct [OF ok] class_ok_dictLength [OF ok]
    by (simp add: getDictLength_def getDict_content unshuffled_dict_eq)
qed

theorem dictionary_invariant_witness:
  "is_reordering rev \<and> static_init rev 61 sample_boot = (sample_class, sample_world) \<and>
   run sample_class [GetDictLength, GetCounter] (sample_instance, sample_world) =
     Some ([ReturnedNumber 62, ReturnedNumber 63], sample_instance, sample_world) \<and>
   length (arrays sample_world (dict sample_class)) = 62 \<and>
   distinct (arrays sample_world (dict sample_class)) \<and>
   getDictLength sample_class = 62 \<and>
   getDictLength sample_class =
     length (arrays (snd (getDict sample_class sample_world)) (fst (getDict sample_class sample_world)))"
proof -
  have a: "is_reordering rev"
    by (simp add: is_reordering_def)
  have b: "static_init rev 61 sample_boot = (sample_class, sample_world)"
    by (simp add: sample_class_def sample_world_def)
  have c: "run sample_class [GetDictLength, GetCounter] (sample_instance, sample_world) =
     Some ([ReturnedNumber 62, ReturnedNumber 63], sample_instance, sample_world)"
    by (simp add: getDictLength_def getCounter_def sample_statics sample_instance_def)
  show ?thesis
    using a b c dictionary_invariant [OF a b c] by simp
qed

text \<open>
  C6. \<^verbatim>\<open>getDict()\<close> returns a new array with the dictionary's entries. Whatever the caller
  does to it (\<open>f\<close>), the shared dictionary is as before, a later \<^verbatim>\<open>getDict()\<close> returns yet
  another array with the original entries, and both generators return what they would
  have returned. Two calls in a row return two arrays with equal entries, and changing the
  first leaves the second alone.
\<close>

theorem getDict_defensive_copy:
  assumes "class_ok cls w" and "getDict cls w = (r1, w1)"
    and "getDict cls (client_write r1 f w1) = (r2, w3)"
  shows "r1 \<noteq> dict cls \<and> arrays w1 r1 = arrays w (dict cls) \<and>
         arrays (client_write r1 f w1) (dict cls) = arrays w (dict cls) \<and>
         class_ok cls (client_write r1 f w1) \<and>
         r2 \<noteq> r1 \<and> r2 \<noteq> dict cls \<and> arrays w3 r2 = arrays w (dict cls) \<and>
         arrays w3 r1 = f (arrays w (dict cls)) \<and>
         counterUUID cls (client_write r1 f w1) this = counterUUID cls w this \<and>
         map_option fst (randomUUID cls arg this (client_write r1 f w1)) =
           map_option fst (randomUUID cls arg this w) \<and>
         fst (getDict cls w1) \<noteq> r1 \<and>
         arrays (snd (getDict cls w1)) (fst (getDict cls w1)) = arrays (snd (getDict cls w1)) r1 \<and>
         arrays (client_write r1 f (snd (getDict cls w1))) (fst (getDict cls w1)) =
           arrays w (dict cls)"
proof -
  let ?w2 = "client_write r1 f w1"
  note g1 = getDict_class_ok [OF assms(1,2)]
  note w2 = client_write_class_ok [OF g1(1,2), of f]
  note g2 = getDict_class_ok [OF w2(1) assms(3)]
  have r1: "r1 = next_ref w" and n1: "next_ref w1 = Suc (next_ref w)"
    using getDict_frame(1,2) [OF assms(2)] by simp_all
  have n2: "next_ref ?w2 = next_ref w1"
    by (simp add: client_write_def)
  have r2: "r2 = Suc (next_ref w)"
    using getDict_frame(1) [OF assms(3)] n1 n2 by simp
  have diff: "r2 \<noteq> r1"
    using r1 r2 by simp
  have kept: "arrays w3 r1 = f (arrays w (dict cls))"
    using getDict_frame(3) [OF assms(3)] diff g1(4) by (simp add: client_write_def)
  have same: "arrays ?w2 (dict cls) = arrays w (dict cls)"
    using w2(2) g1(3) by simp
  have cnt: "counterUUID cls ?w2 this = counterUUID cls w this"
    using same by (rule counterUUID_cong)
  have src: "random_src ?w2 = random_src w" "random_pos ?w2 = random_pos w"
    using getDict_frame(6,7) [OF assms(2)] by (simp_all add: client_write_def)
  have rnd: "map_option fst (randomUUID cls arg this ?w2) = map_option fst (randomUUID cls arg this w)"
    using randomUUID_cong [OF same src] .
  obtain r' w' where second: "getDict cls w1 = (r', w')"
    by (cases "getDict cls w1")
  note g' = getDict_class_ok [OF g1(1) second]
  have r': "r' = Suc (next_ref w)"
    using getDict_frame(1) [OF second] n1 by simp
  then have d': "r' \<noteq> r1"
    using r1 by simp
  have eq': "arrays w' r' = arrays w' r1"
    using getDict_frame(3) [OF second] d' g1(3,4) by simp
  have after: "arrays (client_write r1 f w') r' = arrays w (dict cls)"
    using d' g'(4) g1(3) by (simp add: client_write_def)
  show ?thesis
    using g1(2,4) same w2(1) diff g2(2) g2(4) kept cnt rnd d' eq' after second
    by simp
qed

theorem getDict_defensive_copy_witness:
  "class_ok sample_class sample_world \<and>
   fst (getDict sample_class sample_world) = 1 \<and> dict sample_class = 0 \<and>
   arrays (client_write 1 (\<lambda>xs. []) (snd (getDict sample_class sample_world))) 1 = [] \<and>
   arrays (client_write 1 (\<lambda>xs. []) (snd (getDict sample_class sample_world))) (dict sample_class) =
     arrays sample_world (dict sample_class) \<and>
   fst (getDict sample_class (client_write 1 (\<lambda>xs. []) (snd (getDict sample_class sample_world)))) = 2 \<and>
   length (arrays (snd (getDict sample_class
             (client_write 1 (\<lambda>xs. []) (snd (getDict sample_class sample_world))))) 2) = 62 \<and>
   counterUUID sample_class (client_write 1 (\<lambda>xs. []) (snd (getDict sample_class sample_world)))
     sample_instance = counterUUID sample_class sample_world sample_instance"
proof -
  let ?w1 = "snd (getDict sample_class sample_world)"
  let ?w2 = "client_write 1 (\<lambda>xs. []) ?w1"
  let ?w3 = "snd (getDict sample_class ?w2)"
  have n: "next_ref sample_world = 1"
    by (simp add: sample_world_def static_init_def Let_def sample_boot_def)
  have f1: "fst (getDict sample_class sample_world) = 1"
    by (simp add: getDict_def Let_def n)
  have f2: "fst (getDict sample_class ?w2) = 2"
    by (simp add: getDict_def Let_def client_write_def n)
  have a: "getDict sample_class sample_world = (1, ?w1)"
    using f1 by (metis prod.collapse)
  have b: "getDict sample_class ?w2 = (2, ?w3)"
    using f2 by (metis prod.collapse)
  have c: "arrays ?w2 1 = []"
    by (simp add: client_write_def)
  note copy = getDict_defensive_copy [OF sample_loaded a b, of sample_instance Omitted]
  from copy have t1: "arrays ?w2 (dict sample_class) = arrays sample_world (dict sample_class)"
    by blast
  from copy have "arrays ?w3 2 = arrays sample_world (dict sample_class)"
    by blast
  then have t2: "length (arrays ?w3 2) = 62"
    using class_ok_length [OF sample_loaded] by simp
  from copy have t3: "counterUUID sample_class ?w2 sample_instance =
      counterUUID sample_class sample_world sample_instance"
    by blast
  show ?thesis
    using sample_loaded f1 sample_statics(1) c t1 f2 t2 t3 by blast
qed

section \<open>The debug log\<close>
















end
